theory Spec2Isabelle
  imports Complex_Main "HOL-Library.Multiset" "HOL-Library.Log_Nat"
begin

section \<open>Sette e Mezzo: the round engine of \<open>main.py\<close>\<close>

text \<open>
  The engine is the module-level dictionary \<open>game_state\<close>, the table of players and the
  request handlers \<open>start_game\<close>, \<open>hit\<close>, \<open>stay\<close> and \<open>exit_game\<close>, with the pure function
  \<open>calculate_score\<close>. A card is a Python \<open>int\<close>, a hand a list of cards whose last element
  is the card drawn last (\<open>list.pop()\<close> removes the last element, \<open>append\<close> adds one there).

  Numbers. Scores are sums of the integers 1..7 and of 0.5, all of them binary fractions
  of small magnitude, on which Python's floating point arithmetic and comparisons are
  exact; they are modelled as rationals. Bets and balances are arbitrary Python floats:
  they are modelled as IEEE 754 binary64 values, with the infinities and NaN, and sums and
  differences are rounded to the nearest binary64 value.

  Exceptions. A handler that raises leaves \<open>game_state\<close> as mutated so far and answers with
  a server error; a handler that returns answers with the redirect to the home page. What a
  handler has written to a row before it raises is not committed.
\<close>

subsection \<open>Cards and their values\<close>

datatype error = KeyError | IndexError | AttributeError | TypeError | OverflowError

definition CARDS :: "int list" where
  "CARDS = concat (replicate 4 [1, 2, 3, 4, 5, 6, 7, 8, 9, 10])"

definition CARD_VALUES :: "int \<rightharpoonup> rat" where
  "CARD_VALUES = map_of
     [(1, 1), (2, 2), (3, 3), (4, 4), (5, 5), (6, 6), (7, 7),
      (8, 1 / 2), (9, 1 / 2), (10, 1 / 2)]"

text \<open>\<open>list.pop()\<close>: the last element and the list without it; IndexError on the empty list.\<close>

definition pop :: "'a list \<Rightarrow> error + 'a \<times> 'a list" where
  "pop xs = (if xs = [] then Inl IndexError else Inr (last xs, butlast xs))"

subsection \<open>The score of a hand (\<open>calculate_score\<close>)\<close>

text \<open>
  \<open>sum(CARD_VALUES[card] for card in hand if card != 10)\<close>: the running total starts at 0
  and takes the cards from left to right; a card that is no key of the table raises
  KeyError.
\<close>

fun sum_values :: "rat \<Rightarrow> int list \<Rightarrow> error + rat" where
  "sum_values acc [] = Inr acc"
| "sum_values acc (c # hand) =
     (if c \<noteq> 10 then
        (case CARD_VALUES c of
           None \<Rightarrow> Inl KeyError
         | Some v \<Rightarrow> sum_values (acc + v) hand)
      else sum_values acc hand)"

text \<open>The body of \<open>for _ in range(num_matte)\<close>; \<open>score % 1 == 0\<close> is \<open>frac score = 0\<close>.\<close>

definition matta :: "rat \<Rightarrow> rat" where
  "matta score =
     (if score = 0 then score + 1 / 2
      else if score \<ge> 7 then score + 1 / 2
      else if frac score = 0 then 7
      else 15 / 2)"

definition calculate_score :: "int list \<Rightarrow> error + rat" where
  "calculate_score hand =
     (case sum_values 0 hand of
        Inl e \<Rightarrow> Inl e
      | Inr score \<Rightarrow> Inr ((matta ^^ count_list hand 10) score))"

subsection \<open>Python floats\<close>

text \<open>
  A Python float is a binary64 value: a finite number, an infinity or NaN. \<open>Finite r\<close>
  stands for the binary64 number \<open>r\<close>; the two zeros are one value here, as no comparison
  and no sum of the engine tells them apart. \<open>round64\<close> is rounding to nearest, ties to
  even: the exponent \<open>e\<close> of the argument (at least -1022, the subnormal range), the spacing
  \<open>2 ^ (e - 52)\<close> of the binary64 numbers there, the nearest multiple of it, and an infinity
  from \<open>2 ^ 1024\<close> on.
\<close>

datatype pyfloat = Finite rat | PosInf | NegInf | NaN

definition pow2 :: "int \<Rightarrow> rat" where
  "pow2 e = (if 0 \<le> e then 2 ^ nat e else 1 / 2 ^ nat (- e))"

text \<open>The integer part of the binary logarithm of a positive rational.\<close>

definition floor_log2 :: "rat \<Rightarrow> int" where
  "floor_log2 x =
     (let d = bitlen (fst (quotient_of x)) - bitlen (snd (quotient_of x))
      in if pow2 d \<le> x then d else d - 1)"

definition round_half_even :: "rat \<Rightarrow> int" where
  "round_half_even x =
     (let f = \<lfloor>x\<rfloor>; d = x - of_int f
      in if d < 1 / 2 then f else if 1 / 2 < d then f + 1 else if even f then f else f + 1)"

definition round64 :: "rat \<Rightarrow> pyfloat" where
  "round64 x =
     (if x = 0 then Finite 0
      else
        let a = \<bar>x\<bar>;
            e = max (floor_log2 a) (- 1022);
            q = pow2 (e - 52);
            y = of_int (round_half_even (a / q)) * q
        in if pow2 1024 \<le> y then (if 0 < x then PosInf else NegInf)
           else Finite (if 0 < x then y else - y))"

text \<open>\<open>x + y\<close>, \<open>- x\<close>, \<open>x - y\<close>, \<open>x < y\<close> and \<open>x <= y\<close> on floats.\<close>

fun fadd :: "pyfloat \<Rightarrow> pyfloat \<Rightarrow> pyfloat" where
  "fadd (Finite a) (Finite b) = round64 (a + b)"
| "fadd NaN y = NaN"
| "fadd x NaN = NaN"
| "fadd PosInf NegInf = NaN"
| "fadd NegInf PosInf = NaN"
| "fadd PosInf y = PosInf"
| "fadd x PosInf = PosInf"
| "fadd NegInf y = NegInf"
| "fadd x NegInf = NegInf"

fun fneg :: "pyfloat \<Rightarrow> pyfloat" where
  "fneg (Finite a) = Finite (- a)"
| "fneg PosInf = NegInf"
| "fneg NegInf = PosInf"
| "fneg NaN = NaN"

definition fsub :: "pyfloat \<Rightarrow> pyfloat \<Rightarrow> pyfloat" where
  "fsub x y = fadd x (fneg y)"

fun flt :: "pyfloat \<Rightarrow> pyfloat \<Rightarrow> bool" where
  "flt (Finite a) (Finite b) = (a < b)"
| "flt NaN y = False"
| "flt x NaN = False"
| "flt x NegInf = False"
| "flt PosInf y = False"
| "flt NegInf y = True"
| "flt x PosInf = True"

fun fle :: "pyfloat \<Rightarrow> pyfloat \<Rightarrow> bool" where
  "fle (Finite a) (Finite b) = (a \<le> b)"
| "fle NaN y = False"
| "fle x NaN = False"
| "fle NegInf y = True"
| "fle x PosInf = True"
| "fle x NegInf = False"
| "fle PosInf y = False"

subsection \<open>The state\<close>

text \<open>
  The outcome message. The source writes Italian text with the dealer's score formatted
  into it; the model keeps which message it is and the score it shows:
  \<open>NoMessage\<close> is the empty string, \<open>Sballato\<close> is "Hai Sballato! Vince il Banco.",
  \<open>HaiVinto d\<close> is "HAI VINTO! (Banco: d)" and \<open>BancoVince d\<close> is "IL BANCO VINCE! (Banco: d)".
\<close>

datatype message = NoMessage | Sballato | HaiVinto rat | BancoVince rat

record game_state =
  deck :: "int list"
  player_hand :: "int list"
  dealer_hand :: "int list"
  current_player_id :: "int option"
  bet :: pyfloat
  game_over :: bool
  result_message :: message
  active :: bool

text \<open>
  The world a handler runs in: \<open>game_state\<close> and the players table, of which the engine
  reads and writes the balance of the row with a given id. The table is an SQLite table:
  the column \<open>balance\<close> holds a float or NULL (\<open>None\<close> here, and in Python), and a NaN that
  is written to it is stored as NULL.
\<close>

record world =
  gs :: game_state
  players :: "int \<rightharpoonup> pyfloat option"

definition store :: "pyfloat \<Rightarrow> pyfloat option" where
  "store x = (if x = NaN then None else Some x)"

definition initial_game_state :: game_state where
  "initial_game_state =
     \<lparr>deck = [], player_hand = [], dealer_hand = [], current_player_id = None,
      bet = Finite 0, game_over = False, result_message = NoMessage, active = False\<rparr>"

datatype response = Redirect | ServerError error

text \<open>
  \<open>db.query(Player).filter(Player.id == pid).first()\<close>: the row and its balance, or None
  (also for the id None of the initial state). An id that is no signed 64-bit integer
  cannot be passed to SQLite: the query raises OverflowError.
\<close>

definition int64 :: "int \<Rightarrow> bool" where
  "int64 i = (- (2 ^ 63) \<le> i \<and> i < 2 ^ 63)"

definition find_player ::
  "(int \<rightharpoonup> pyfloat option) \<Rightarrow> int option \<Rightarrow> error + (int \<times> pyfloat option) option" where
  "find_player tbl pid =
     (case pid of
        None \<Rightarrow> Inr None
      | Some i \<Rightarrow>
          if int64 i then Inr (case tbl i of None \<Rightarrow> None | Some b \<Rightarrow> Some (i, b))
          else Inl OverflowError)"

subsection \<open>The handlers\<close>

text \<open>
  \<open>start_game\<close>. The argument \<open>shuffled\<close> is the list \<open>deck\<close> as \<open>random.shuffle\<close> leaves it:
  some permutation of \<open>CARDS\<close>. The test of line 108 compares floats, and raises TypeError
  on a balance that is NULL. The dictionary display evaluates its values in order: the
  player's card is popped first, the dealer's second, and the entry "deck" is the same list
  object, which has lost both cards.
\<close>

definition start_game :: "int \<Rightarrow> pyfloat \<Rightarrow> int list \<Rightarrow> world \<Rightarrow> response \<times> world" where
  "start_game player_id bet_amount shuffled w =
     (case find_player (players w) (Some player_id) of
        Inl e \<Rightarrow> (ServerError e, w)
      | Inr None \<Rightarrow> (Redirect, w)
      | Inr (Some (i, None)) \<Rightarrow> (ServerError TypeError, w)
      | Inr (Some (i, Some balance)) \<Rightarrow>
          if flt balance bet_amount \<or> fle bet_amount (Finite 0) then (Redirect, w)
          else
            (case pop shuffled of
               Inl e \<Rightarrow> (ServerError e, w)
             | Inr (c1, deck1) \<Rightarrow>
                 (case pop deck1 of
                    Inl e \<Rightarrow> (ServerError e, w)
                  | Inr (c2, deck2) \<Rightarrow>
                      (Redirect,
                       w\<lparr>gs := \<lparr>deck = deck2, player_hand = [c1], dealer_hand = [c2],
                                current_player_id = Some player_id, bet = bet_amount,
                                game_over = False, result_message = NoMessage,
                                active = True\<rparr>\<rparr>))))"

text \<open>
  \<open>hit\<close>. On a bust the flags are set before the row is read; \<open>player.balance -= bet\<close> on a
  balance that is NULL raises TypeError.
\<close>

definition hit :: "world \<Rightarrow> response \<times> world" where
  "hit w =
     (let g = gs w in
      if \<not> game_over g then
        (case pop (deck g) of
           Inl e \<Rightarrow> (ServerError e, w)
         | Inr (c, deck') \<Rightarrow>
             let g1 = g\<lparr>deck := deck', player_hand := player_hand g @ [c]\<rparr> in
             (case calculate_score (player_hand g1) of
                Inl e \<Rightarrow> (ServerError e, w\<lparr>gs := g1\<rparr>)
              | Inr current_score \<Rightarrow>
                  if current_score > 15 / 2 then
                    let g2 = g1\<lparr>game_over := True, result_message := Sballato\<rparr> in
                    (case find_player (players w) (current_player_id g2) of
                       Inl e \<Rightarrow> (ServerError e, w\<lparr>gs := g2\<rparr>)
                     | Inr None \<Rightarrow> (Redirect, w\<lparr>gs := g2\<rparr>)
                     | Inr (Some (i, None)) \<Rightarrow> (ServerError TypeError, w\<lparr>gs := g2\<rparr>)
                     | Inr (Some (i, Some balance)) \<Rightarrow>
                         (Redirect,
                          \<lparr>gs = g2,
                           players = (players w)(i \<mapsto> store (fsub balance (bet g2)))\<rparr>))
                  else (Redirect, w\<lparr>gs := g1\<rparr>)))
      else (Redirect, w))"

text \<open>
  The dealer's loop of \<open>stay\<close> (lines 147 to 154), on the dealer's hand and the deck, for the
  player's score computed before it. It returns the hand and the deck as the loop leaves
  them, with the exception that ended it if one did.
\<close>

function dealer_loop :: "rat \<Rightarrow> int list \<Rightarrow> int list \<Rightarrow> error option \<times> int list \<times> int list" where
  "dealer_loop player_score dealer deck0 =
     (case calculate_score dealer of
        Inl e \<Rightarrow> (Some e, dealer, deck0)
      | Inr ds \<Rightarrow>
          if ds < 15 / 2 then
            if ds > player_score \<and> ds \<ge> 6 then (None, dealer, deck0)
            else if ds = player_score \<and> ds \<ge> 6 then (None, dealer, deck0)
            else
              (case pop deck0 of
                 Inl e \<Rightarrow> (Some e, dealer, deck0)
               | Inr (c, deck') \<Rightarrow> dealer_loop player_score (dealer @ [c]) deck')
          else (None, dealer, deck0))"
  by pat_completeness auto
termination
  by (relation "measure (\<lambda>(p, d, k). length k)") (auto simp: pop_def split: if_splits)

text \<open>
  \<open>stay\<close>. The row is read after the dealer's loop; the message is written before the
  balance, and \<open>player.balance += bet\<close> raises AttributeError without a row and TypeError
  on a balance that is NULL.
\<close>

definition stay :: "world \<Rightarrow> response \<times> world" where
  "stay w =
     (let g = gs w in
      case calculate_score (player_hand g) of
        Inl e \<Rightarrow> (ServerError e, w)
      | Inr player_score \<Rightarrow>
          (case dealer_loop player_score (dealer_hand g) (deck g) of
             (Some e, dealer', deck') \<Rightarrow>
               (ServerError e, w\<lparr>gs := g\<lparr>deck := deck', dealer_hand := dealer'\<rparr>\<rparr>)
           | (None, dealer', deck') \<Rightarrow>
               let g1 = g\<lparr>deck := deck', dealer_hand := dealer'\<rparr> in
               (case calculate_score (dealer_hand g1) of
                  Inl e \<Rightarrow> (ServerError e, w\<lparr>gs := g1\<rparr>)
                | Inr dealer_score \<Rightarrow>
                    (case find_player (players w) (current_player_id g1) of
                       Inl e \<Rightarrow> (ServerError e, w\<lparr>gs := g1\<rparr>)
                     | Inr player \<Rightarrow>
                         if player_score \<le> 15 / 2 \<and>
                            (dealer_score > 15 / 2 \<or> player_score > dealer_score) then
                           let g2 = g1\<lparr>result_message := HaiVinto dealer_score\<rparr> in
                           (case player of
                              None \<Rightarrow> (ServerError AttributeError, w\<lparr>gs := g2\<rparr>)
                            | Some (i, None) \<Rightarrow> (ServerError TypeError, w\<lparr>gs := g2\<rparr>)
                            | Some (i, Some balance) \<Rightarrow>
                                (Redirect,
                                 \<lparr>gs = g2\<lparr>game_over := True\<rparr>,
                                  players = (players w)(i \<mapsto> store (fadd balance (bet g2)))\<rparr>))
                         else
                           let g2 = g1\<lparr>result_message := BancoVince dealer_score\<rparr> in
                           (case player of
                              None \<Rightarrow> (ServerError AttributeError, w\<lparr>gs := g2\<rparr>)
                            | Some (i, None) \<Rightarrow> (ServerError TypeError, w\<lparr>gs := g2\<rparr>)
                            | Some (i, Some balance) \<Rightarrow>
                                (Redirect,
                                 \<lparr>gs = g2\<lparr>game_over := True\<rparr>,
                                  players =
                                    (players w)(i \<mapsto> store (fsub balance (bet g2)))\<rparr>))))))"

definition exit_game :: "world \<Rightarrow> response \<times> world" where
  "exit_game w = (Redirect, w\<lparr>gs := (gs w)\<lparr>active := False\<rparr>\<rparr>)"

subsection \<open>Requests and runs\<close>

text \<open>
  The four requests that reach the engine; \<open>Start\<close> carries the form fields and the deck
  that the shuffle produces for it. The server keeps serving after a request that raised.
\<close>

datatype request = Start int pyfloat "int list" | Hit | Stay | Exit

fun handle :: "request \<Rightarrow> world \<Rightarrow> response \<times> world" where
  "handle (Start player_id bet_amount shuffled) w = start_game player_id bet_amount shuffled w"
| "handle Hit w = hit w"
| "handle Stay w = stay w"
| "handle Exit w = exit_game w"

fun run :: "request list \<Rightarrow> world \<Rightarrow> world" where
  "run [] w = w"
| "run (r # rs) w = run rs (snd (handle r w))"

text \<open>What \<open>random.shuffle\<close> guarantees of the deck of a \<open>Start\<close> request.\<close>

definition shuffled_deck :: "int list \<Rightarrow> bool" where
  "shuffled_deck d = (mset d = mset CARDS)"

fun fair :: "request \<Rightarrow> bool" where
  "fair (Start player_id bet_amount shuffled) = shuffled_deck shuffled"
| "fair r = True"

text \<open>
  The round status of the specification, read off the two flags the home page reads:
  \<open>active\<close> selects the game view, \<open>game_over\<close> reveals the dealer's hand.
\<close>

datatype status = NoActiveRound | InProgress | Settled

definition status_of :: "game_state \<Rightarrow> status" where
  "status_of g =
     (if \<not> active g then NoActiveRound else if game_over g then Settled else InProgress)"

subsection \<open>The score of the specification\<close>

text \<open>
  The reference algorithm, written after section 4.2 of the specification: the value of a
  card that is no wildcard, the rule that one wildcard applies to the running score, and
  the score of a hand. The specification gives \<open>cardValue\<close> on the ranks 1 to 9 only; the
  value 0 elsewhere is never read on a hand of cards.
\<close>

definition cardValue :: "int \<Rightarrow> rat" where
  "cardValue rank =
     (if 1 \<le> rank \<and> rank \<le> 7 then of_int rank
      else if rank = 8 \<or> rank = 9 then 1 / 2
      else 0)"

definition wildcard_rule :: "rat \<Rightarrow> rat" where
  "wildcard_rule score =
     (if score = 0 then score + 1 / 2
      else if score \<ge> 7 then score + 1 / 2
      else if of_int \<lfloor>score\<rfloor> = score then 7
      else 15 / 2)"

definition score_spec :: "int list \<Rightarrow> rat" where
  "score_spec hand =
     (wildcard_rule ^^ length (filter (\<lambda>c. c = 10) hand))
       (sum_list (map cardValue (filter (\<lambda>c. c \<noteq> 10) hand)))"

subsection \<open>Auxiliary notions\<close>

text \<open>A card of the pack: a rank from 1 to 10, the keys of \<open>CARD_VALUES\<close>.\<close>

definition is_card :: "int \<Rightarrow> bool" where
  "is_card c = (1 \<le> c \<and> c \<le> 10)"

text \<open>
  What a card adds to the sum of line 48: its table value, nothing for the wildcard (and
  nothing for an integer that is no key, where the source raises). \<open>base\<close> is that sum.
\<close>

definition face_value :: "int \<Rightarrow> rat" where
  "face_value c = (if c = 10 then 0 else case CARD_VALUES c of None \<Rightarrow> 0 | Some v \<Rightarrow> v)"

definition base :: "int list \<Rightarrow> rat" where
  "base hand = sum_list (map face_value hand)"

text \<open>The non-negative multiples of one half.\<close>

definition half_int :: "rat \<Rightarrow> bool" where
  "half_int r = (\<exists>n::int. 0 \<le> n \<and> r = of_int n / 2)"

subsection \<open>The dealer's policy and the settlement rule of the specification\<close>

text \<open>
  Written after sections 4.4 and 4.5 of the specification: the conditions on the dealer's
  score \<open>D\<close> under which the dealer stops drawing against the player's score \<open>P\<close>, and the
  condition under which the player wins the settlement.
\<close>

definition dealer_stops :: "rat \<Rightarrow> rat \<Rightarrow> bool" where
  "dealer_stops P D = (D \<ge> 15 / 2 \<or> (D > P \<and> D \<ge> 6) \<or> (D = P \<and> D \<ge> 6))"

definition player_wins :: "rat \<Rightarrow> rat \<Rightarrow> bool" where
  "player_wins playerScore dealerScore =
     (playerScore \<le> 15 / 2 \<and> (dealerScore > 15 / 2 \<or> playerScore > dealerScore))"

subsection \<open>Reachable states and their invariant\<close>

text \<open>Card conservation: deck and hands together are the pack of 40 cards.\<close>

definition conserved :: "game_state \<Rightarrow> bool" where
  "conserved g = (mset (deck g) + mset (player_hand g) + mset (dealer_hand g) = mset CARDS)"

text \<open>
  The test of line 108 lets a request through: the row exists, its balance is a float, and
  neither \<open>balance < bet\<close> nor \<open>bet <= 0\<close> holds.
\<close>

definition accepted :: "int \<Rightarrow> pyfloat \<Rightarrow> world \<Rightarrow> bool" where
  "accepted player_id bet_amount w =
     (case find_player (players w) (Some player_id) of
        Inr (Some (i, Some balance)) \<Rightarrow>
          \<not> flt balance bet_amount \<and> \<not> fle bet_amount (Finite 0)
      | _ \<Rightarrow> False)"

text \<open>
  The states of the engine from a successful \<open>Start\<close> on: the state that an accepted
  \<open>start_game\<close> leaves, from any earlier state, and every state that a further request
  leads to, whether it returns or raises.
\<close>

inductive reachable :: "world \<Rightarrow> bool" where
  start: "accepted player_id bet_amount w0 \<Longrightarrow> shuffled_deck shuffled \<Longrightarrow>
          reachable (snd (start_game player_id bet_amount shuffled w0))"
| step: "reachable w \<Longrightarrow> fair r \<Longrightarrow> reachable (snd (handle r w))"

text \<open>
  The invariant of the reachable states: the cards are conserved; neither hand holds more
  than one card beyond a score of seven and a half, and the player's hand none while the
  round is not over; the bettor's row is in the table, with a balance that is not NULL
  while the round is not over.
\<close>

definition round_inv :: "world \<Rightarrow> bool" where
  "round_inv w =
     (conserved (gs w) \<and>
      base (player_hand (gs w)) \<le> 29 / 2 \<and>
      (\<not> game_over (gs w) \<longrightarrow> base (player_hand (gs w)) \<le> 15 / 2) \<and>
      base (dealer_hand (gs w)) \<le> 29 / 2 \<and>
      (\<exists>i b. find_player (players w) (current_player_id (gs w)) = Inr (Some (i, b)) \<and>
         (\<not> game_over (gs w) \<longrightarrow> b \<noteq> None)))"

subsection \<open>Sample states\<close>

text \<open>
  One player with id 1 and balance 100.0 and no round yet; the round that a bet of 20
  starts on the unshuffled pack (the player holds the wildcard, the dealer a 9); that round
  after \<open>Exit\<close>, and after \<open>Stay\<close>; and rounds on the reversed pack after one \<open>Hit\<close>, where
  the player holds 1 and 3 and the next card is a 4: one for a bet of 20, one for the bet
  \<open>2 ^ -48\<close>, which is a binary64 number.
\<close>

definition example_world :: world where
  "example_world =
     \<lparr>gs = initial_game_state, players = Map.empty(1 \<mapsto> Some (Finite 100))\<rparr>"

definition started_world :: world where
  "started_world = snd (start_game 1 (Finite 20) CARDS example_world)"

definition exited_world :: world where
  "exited_world = run [Exit] started_world"

definition settled_world :: world where
  "settled_world = run [Stay] started_world"

definition busting_world :: world where
  "busting_world = run [Hit] (snd (start_game 1 (Finite 20) (rev CARDS) example_world))"

definition tiny_bet :: pyfloat where
  "tiny_bet = Finite (1 / 2 ^ 48)"

definition tiny_started_world :: world where
  "tiny_started_world = snd (start_game 1 tiny_bet CARDS example_world)"

definition tiny_busting_world :: world where
  "tiny_busting_world = run [Hit] (snd (start_game 1 tiny_bet (rev CARDS) example_world))"

section \<open>Properties of the score\<close>

lemma CARD_VALUES_None: "CARD_VALUES c = None \<longleftrightarrow> \<not> is_card c"
  unfolding CARD_VALUES_def is_card_def by (simp, arith)

lemma CARD_VALUES_Some:
  "CARD_VALUES c = Some v \<longleftrightarrow>
     (1 \<le> c \<and> c \<le> 7 \<and> v = of_int c) \<or> ((c = 8 \<or> c = 9 \<or> c = 10) \<and> v = 1 / 2)"
  unfolding CARD_VALUES_def by (simp, auto)

lemma face_value_eq:
  "face_value c =
     (if 1 \<le> c \<and> c \<le> 7 then of_int c else if c = 8 \<or> c = 9 then 1 / 2 else 0)"
proof -
  have "c < 1 \<or> c = 1 \<or> c = 2 \<or> c = 3 \<or> c = 4 \<or> c = 5 \<or> c = 6 \<or> c = 7 \<or> c = 8 \<or>
        c = 9 \<or> c = 10 \<or> 10 < c"
    by arith
  then show ?thesis
    by (elim disjE) (simp_all add: face_value_def CARD_VALUES_def)
qed

lemma face_value_bounds: "0 \<le> face_value c \<and> face_value c \<le> 7"
  unfolding face_value_def by (auto split: option.splits simp: CARD_VALUES_Some)

lemma sum_values_eq:
  "sum_values acc hand =
     (if \<forall>c\<in>set hand. is_card c then Inr (acc + base hand) else Inl KeyError)"
proof (induction hand arbitrary: acc)
  case Nil
  show ?case by (simp add: base_def)
next
  case (Cons c hand)
  show ?case
  proof (cases "c = 10")
    case True
    then show ?thesis using Cons.IH [of acc]
      by (simp add: base_def face_value_def is_card_def)
  next
    case False
    show ?thesis
    proof (cases "CARD_VALUES c")
      case None
      moreover from None have "\<not> is_card c" by (simp add: CARD_VALUES_None)
      ultimately show ?thesis using False by simp
    next
      case (Some v)
      then have "is_card c" using CARD_VALUES_None [of c] by auto
      then show ?thesis using False Some Cons.IH [of "acc + v"]
        by (simp add: base_def face_value_def add.assoc)
    qed
  qed
qed

lemma matta_ge: "s \<le> matta s"
  unfolding matta_def by simp

lemma matta_pow_ge: "s \<le> (matta ^^ n) s"
proof (induction n)
  case 0 show ?case by simp
next
  case (Suc n)
  have "(matta ^^ n) s \<le> matta ((matta ^^ n) s)" by (rule matta_ge)
  with Suc show ?case by simp
qed

lemma calculate_score_eq:
  "calculate_score hand =
     (if \<forall>c\<in>set hand. is_card c then Inr ((matta ^^ count_list hand 10) (base hand))
      else Inl KeyError)"
  unfolding calculate_score_def by (simp add: sum_values_eq)

lemma base_le_score: "calculate_score hand = Inr s \<Longrightarrow> base hand \<le> s"
  by (auto simp: calculate_score_eq matta_pow_ge split: if_splits)

lemma base_append: "base (h @ [c]) = base h + face_value c"
  by (simp add: base_def)

lemma base_mset: "base hand = sum_mset (image_mset face_value (mset hand))"
  unfolding base_def by (metis mset_map sum_mset_sum_list)

lemma base_CARDS: "base CARDS = 116"
  by code_simp

lemma set_CARDS: "c \<in> set CARDS \<longleftrightarrow> is_card c"
  unfolding CARDS_def is_card_def by (simp, arith)

lemma wildcard_rule_matta: "wildcard_rule = matta"
  unfolding wildcard_rule_def matta_def fun_eq_iff frac_def by auto

lemma face_value_cardValue: "face_value c = (if c = 10 then 0 else cardValue c)"
  by (simp add: face_value_eq cardValue_def)

lemma base_cardValue:
  "base hand = sum_list (map cardValue (filter (\<lambda>c. c \<noteq> 10) hand))"
  by (induction hand) (simp_all add: base_def face_value_cardValue)

lemma count_list_filter: "count_list hand x = length (filter (\<lambda>c. c = x) hand)"
  by (induction hand) simp_all

lemma half_int_add: "half_int a \<Longrightarrow> half_int b \<Longrightarrow> half_int (a + b)"
  unfolding half_int_def
proof -
  assume "\<exists>n::int. 0 \<le> n \<and> a = of_int n / 2" "\<exists>n::int. 0 \<le> n \<and> b = of_int n / 2"
  then obtain n m :: int where nm: "0 \<le> n" "a = of_int n / 2" "0 \<le> m" "b = of_int m / 2"
    by blast
  then have "0 \<le> n + m \<and> a + b = of_int (n + m) / 2" by (simp add: add_divide_distrib)
  then show "\<exists>k::int. 0 \<le> k \<and> a + b = of_int k / 2" by blast
qed

lemma half_int_face_value: "half_int (face_value c)"
proof -
  have "face_value c = of_int 0 / 2 \<or> face_value c = of_int 1 / 2 \<or> (0 \<le> c \<and> face_value c = of_int (2 * c) / 2)"
    unfolding face_value_def by (auto split: option.splits simp: CARD_VALUES_Some)
  then show ?thesis unfolding half_int_def by (metis zero_le_one order_refl mult_nonneg_nonneg zero_le_numeral)
qed

lemma half_int_base: "half_int (base hand)"
proof (induction hand)
  case Nil
  have "(0::rat) = of_int 0 / 2" by simp
  then show ?case unfolding base_def half_int_def by (metis list.simps(8) sum_list.Nil order_refl)
next
  case (Cons c hand)
  then show ?case using half_int_add [OF half_int_face_value [of c]] by (simp add: base_def)
qed

lemma half_int_matta: "half_int r \<Longrightarrow> half_int (matta r)"
proof -
  have h: "half_int (1 / 2)" "half_int 7" "half_int (15 / 2)"
    unfolding half_int_def
    by (rule exI [of _ 1], simp, rule exI [of _ 14], simp, rule exI [of _ 15], simp)
  assume "half_int r"
  then show ?thesis unfolding matta_def using h half_int_add [of r "1 / 2"] by simp
qed

lemma half_int_matta_pow: "half_int r \<Longrightarrow> half_int ((matta ^^ k) r)"
  by (induction k) (simp_all add: half_int_matta)

lemma half_int_frac: "half_int r \<Longrightarrow> 0 \<le> r \<and> (frac r = 0 \<or> frac r = 1 / 2)"
proof -
  assume "half_int r"
  then obtain n :: int where n: "0 \<le> n" "r = of_int n / 2" unfolding half_int_def by blast
  then have nonneg: "0 \<le> r" by simp
  show ?thesis
  proof (cases "even n")
    case True
    then obtain k where "n = 2 * k" by (auto elim: evenE)
    then have "r = of_int k" using n by simp
    then have "frac r = 0" by simp
    with nonneg show ?thesis by blast
  next
    case False
    then obtain k where k: "n = 2 * k + 1" by (auto elim: oddE)
    then have "r = of_int k + 1 / 2" using n by (simp add: add_divide_distrib)
    then have "frac r = 1 / 2" by (simp add: frac_unique_iff)
    with nonneg show ?thesis by blast
  qed
qed

section \<open>Properties of the dealer's loop and of the handlers\<close>

declare dealer_loop.simps [simp del]

lemma pop_Inr: "pop xs = Inr (c, ys) \<longleftrightarrow> xs = ys @ [c]"
  unfolding pop_def by (auto simp: snoc_eq_iff_butlast)

lemma pop_Inl: "pop xs = Inl e \<longleftrightarrow> xs = [] \<and> e = IndexError"
  unfolding pop_def by auto

lemma pop_Nil: "pop [] = Inl IndexError"
  by (simp add: pop_def)

lemma pop_snoc: "pop (ys @ [c]) = Inr (c, ys)"
  by (simp add: pop_def)

lemma dealer_loop_unfold:
  "calculate_score d = Inr D \<Longrightarrow>
   dealer_loop P d k =
     (if dealer_stops P D then (None, d, k)
      else case pop k of
             Inl e \<Rightarrow> (Some e, d, k)
           | Inr (c, k') \<Rightarrow> dealer_loop P (d @ [c]) k')"
  by (subst dealer_loop.simps) (auto simp: dealer_stops_def split: sum.splits)

lemma dealer_loop_KeyError:
  "calculate_score d = Inl e \<Longrightarrow> dealer_loop P d k = (Some e, d, k)"
  by (subst dealer_loop.simps) simp

lemma dealer_loop_stop:
  "calculate_score d = Inr D \<Longrightarrow> dealer_stops P D \<Longrightarrow> dealer_loop P d k = (None, d, k)"
  by (simp add: dealer_loop_unfold)

lemma dealer_loop_empty:
  "calculate_score d = Inr D \<Longrightarrow> \<not> dealer_stops P D \<Longrightarrow>
   dealer_loop P d [] = (Some IndexError, d, [])"
  by (simp add: dealer_loop_unfold pop_Nil)

lemma dealer_loop_draw:
  "calculate_score d = Inr D \<Longrightarrow> \<not> dealer_stops P D \<Longrightarrow>
   dealer_loop P d (k @ [c]) = dealer_loop P (d @ [c]) k"
  by (simp add: dealer_loop_unfold pop_snoc)

lemma dealer_loop_cases [case_names raises stops empty draws]:
  assumes "\<And>P d k e. calculate_score d = Inl e \<Longrightarrow> Q P d k"
    and "\<And>P d k D. calculate_score d = Inr D \<Longrightarrow> dealer_stops P D \<Longrightarrow> Q P d k"
    and "\<And>P d D. calculate_score d = Inr D \<Longrightarrow> \<not> dealer_stops P D \<Longrightarrow> Q P d []"
    and "\<And>P d k c D. calculate_score d = Inr D \<Longrightarrow> \<not> dealer_stops P D \<Longrightarrow>
           Q P (d @ [c]) k \<Longrightarrow> Q P d (k @ [c])"
  shows "Q P d k"
proof (induction k arbitrary: d rule: rev_induct)
  case Nil
  show ?case
  proof (cases "calculate_score d")
    case (Inl e)
    then show ?thesis by (rule assms(1))
  next
    case (Inr D)
    then show ?thesis using assms(2) [of d D P "[]"] assms(3) [of d D P] by blast
  qed
next
  case (snoc c k)
  show ?case
  proof (cases "calculate_score d")
    case (Inl e)
    then show ?thesis by (rule assms(1))
  next
    case (Inr D)
    then show ?thesis
      using assms(2) [of d D P "k @ [c]"] assms(4) [of d D P c k] snoc [of "d @ [c]"] by blast
  qed
qed

lemma dealer_loop_cards:
  "dealer_loop P d k = (e, d', k') \<Longrightarrow> k' @ rev d' = k @ rev d \<and> length d \<le> length d'"
proof (induction P d k rule: dealer_loop_cases)
  case (raises P d k x)
  then show ?case by (simp add: dealer_loop_KeyError)
next
  case (stops P d k D)
  then show ?case by (simp add: dealer_loop_stop)
next
  case (empty P d D)
  then show ?case by (simp add: dealer_loop_empty)
next
  case (draws P d k c D)
  then show ?case by (simp add: dealer_loop_draw)
qed

lemma dealer_loop_base:
  "dealer_loop P d k = (e, d', k') \<Longrightarrow> base d \<le> 29 / 2 \<Longrightarrow> base d' \<le> 29 / 2"
proof (induction P d k rule: dealer_loop_cases)
  case (raises P d k x)
  then show ?case by (simp add: dealer_loop_KeyError)
next
  case (stops P d k D)
  then show ?case by (simp add: dealer_loop_stop)
next
  case (empty P d D)
  then show ?case by (simp add: dealer_loop_empty)
next
  case (draws P d k c D)
  from draws(1) have "base d \<le> D" by (rule base_le_score)
  moreover from draws(2) have "D < 15 / 2" by (auto simp: dealer_stops_def)
  moreover have "face_value c \<le> 7" by (simp add: face_value_bounds)
  ultimately have "base (d @ [c]) \<le> 29 / 2" by (simp add: base_append)
  with draws show ?case by (simp add: dealer_loop_draw)
qed

lemma dealer_loop_no_error:
  "\<forall>c\<in>set d \<union> set k. is_card c \<Longrightarrow> 15 / 2 < base d + base k \<Longrightarrow>
   fst (dealer_loop P d k) = None"
proof (induction P d k rule: dealer_loop_cases)
  case (raises P d k x)
  then show ?case by (simp add: calculate_score_eq split: if_splits)
next
  case (stops P d k D)
  then show ?case by (simp add: dealer_loop_stop)
next
  case (empty P d D)
  from empty(1) have "base d \<le> D" by (rule base_le_score)
  moreover from empty(2) have "D < 15 / 2" by (auto simp: dealer_stops_def)
  ultimately show ?case using empty(4) by (simp add: base_def)
next
  case (draws P d k c D)
  then show ?case by (simp add: dealer_loop_draw base_append base_def)
qed

lemma dealer_loop_final:
  "dealer_loop P d k = (None, d', k') \<Longrightarrow> \<exists>D. calculate_score d' = Inr D \<and> dealer_stops P D"
proof (induction P d k rule: dealer_loop_cases)
  case (raises P d k x)
  then show ?case by (simp add: dealer_loop_KeyError)
next
  case (stops P d k D)
  then show ?case by (simp add: dealer_loop_stop)
next
  case (empty P d D)
  then show ?case by (simp add: dealer_loop_empty)
next
  case (draws P d k c D)
  then show ?case by (simp add: dealer_loop_draw)
qed

subsection \<open>Card conservation\<close>

lemma conserved_cards:
  assumes "conserved g"
  shows "\<forall>c\<in>set (deck g) \<union> set (player_hand g) \<union> set (dealer_hand g). is_card c"
proof -
  from assms have "set_mset (mset (deck g) + mset (player_hand g) + mset (dealer_hand g)) =
      set_mset (mset CARDS)"
    by (simp add: conserved_def)
  then have "set (deck g) \<union> set (player_hand g) \<union> set (dealer_hand g) = set CARDS" by simp
  then show ?thesis by (simp add: set_CARDS)
qed

lemma conserved_base:
  assumes "conserved g"
  shows "base (deck g) + base (player_hand g) + base (dealer_hand g) = 116"
proof -
  have "base (deck g) + base (player_hand g) + base (dealer_hand g) =
      sum_mset (image_mset face_value (mset (deck g) + mset (player_hand g) + mset (dealer_hand g)))"
    by (simp add: base_mset)
  also have "\<dots> = base CARDS" using assms by (simp add: conserved_def base_mset)
  finally show ?thesis by (simp add: base_CARDS)
qed

lemma conserved_length:
  assumes "conserved g"
  shows "length (deck g) + length (player_hand g) + length (dealer_hand g) = 40"
proof -
  from assms have "size (mset (deck g) + mset (player_hand g) + mset (dealer_hand g)) =
      size (mset CARDS)"
    by (simp add: conserved_def)
  moreover have "length CARDS = 40" by code_simp
  ultimately show ?thesis by simp
qed

lemma score_of_cards: "\<forall>c\<in>set hand. is_card c \<Longrightarrow> \<exists>s. calculate_score hand = Inr s"
  by (simp add: calculate_score_eq)

lemma base_nonneg: "0 \<le> base hand"
  unfolding base_def by (rule sum_list_nonneg) (auto simp: face_value_bounds)

subsection \<open>The players table and the test of the bet\<close>

lemma preconditions_pass:
  "flt (Finite 0) bet_amount \<Longrightarrow> fle bet_amount b \<Longrightarrow>
   \<not> flt b bet_amount \<and> \<not> fle bet_amount (Finite 0)"
  by (cases bet_amount; cases b) auto

lemma find_player_row:
  "find_player tbl pid = Inr (Some (i, b)) \<longleftrightarrow> pid = Some i \<and> int64 i \<and> tbl i = Some b"
  by (auto simp: find_player_def split: option.splits if_splits)

lemma find_player_upd:
  "find_player tbl pid = Inr (Some (i, b)) \<Longrightarrow>
   find_player (tbl(i \<mapsto> b')) pid = Inr (Some (i, b'))"
  by (simp add: find_player_row)

subsection \<open>\<open>hit\<close>\<close>

lemma hit_settled: "game_over (gs w) \<Longrightarrow> hit w = (Redirect, w)"
  by (simp add: hit_def Let_def)

lemma hit_safe:
  assumes "\<not> game_over (gs w)" and "deck (gs w) = k @ [c]"
    and "calculate_score (player_hand (gs w) @ [c]) = Inr s" and "s \<le> 15 / 2"
  shows "hit w =
     (Redirect, w\<lparr>gs := (gs w)\<lparr>deck := k, player_hand := player_hand (gs w) @ [c]\<rparr>\<rparr>)"
  using assms by (simp add: hit_def pop_snoc Let_def)

lemma hit_bust:
  assumes "\<not> game_over (gs w)" and "deck (gs w) = k @ [c]"
    and "calculate_score (player_hand (gs w) @ [c]) = Inr s" and "s > 15 / 2"
    and "find_player (players w) (current_player_id (gs w)) = Inr (Some (i, Some b))"
  shows "hit w =
     (Redirect,
      \<lparr>gs = (gs w)\<lparr>deck := k, player_hand := player_hand (gs w) @ [c], game_over := True,
                   result_message := Sballato\<rparr>,
       players = (players w)(i \<mapsto> store (fsub b (bet (gs w))))\<rparr>)"
  using assms by (simp add: hit_def pop_snoc Let_def)

lemma round_inv_hit_facts:
  assumes "round_inv w" and "\<not> game_over (gs w)"
  shows "\<exists>k c s i b. deck (gs w) = k @ [c] \<and>
      calculate_score (player_hand (gs w) @ [c]) = Inr s \<and>
      find_player (players w) (current_player_id (gs w)) = Inr (Some (i, Some b))"
proof -
  let ?g = "gs w"
  from assms have cons: "conserved ?g" by (simp add: round_inv_def)
  from assms have "base (player_hand ?g) \<le> 29 / 2" "base (dealer_hand ?g) \<le> 29 / 2"
    by (simp_all add: round_inv_def)
  with conserved_base [OF cons] have "0 < base (deck ?g)" by simp
  then have "deck ?g \<noteq> []" by (auto simp: base_def)
  then obtain k c where k: "deck ?g = k @ [c]" by (metis rev_exhaust)
  from conserved_cards [OF cons] k have "\<forall>x\<in>set (player_hand ?g @ [c]). is_card x" by simp
  then obtain s where "calculate_score (player_hand ?g @ [c]) = Inr s"
    using score_of_cards by blast
  moreover from assms obtain i b
    where "find_player (players w) (current_player_id ?g) = Inr (Some (i, Some b))"
    by (auto simp: round_inv_def)
  ultimately show ?thesis using k by blast
qed

lemma round_inv_hit:
  assumes "round_inv w"
  shows "round_inv (snd (hit w))"
proof (cases "game_over (gs w)")
  case True
  with assms show ?thesis by (simp add: hit_settled)
next
  case False
  let ?g = "gs w"
  from round_inv_hit_facts [OF assms False] obtain k c s i b
    where k: "deck ?g = k @ [c]"
      and s: "calculate_score (player_hand ?g @ [c]) = Inr s"
      and f: "find_player (players w) (current_player_id ?g) = Inr (Some (i, Some b))"
    by blast
  from assms False have "base (player_hand ?g) \<le> 15 / 2" by (simp add: round_inv_def)
  moreover have "face_value c \<le> 7" by (simp add: face_value_bounds)
  ultimately have b1: "base (player_hand ?g @ [c]) \<le> 29 / 2" by (simp add: base_append)
  from s have b2: "base (player_hand ?g @ [c]) \<le> s" by (rule base_le_score)
  from assms k have c: "mset k + mset (player_hand ?g @ [c]) + mset (dealer_hand ?g) = mset CARDS"
    by (simp add: round_inv_def conserved_def)
  show ?thesis
  proof (cases "s > 15 / 2")
    case True
    note h = hit_bust [OF False k s True f]
    from find_player_upd [OF f] have "find_player ((players w)(i \<mapsto> store (fsub b (bet ?g))))
        (current_player_id ?g) = Inr (Some (i, store (fsub b (bet ?g))))" .
    with h assms b1 c show ?thesis
      by (simp add: round_inv_def conserved_def)
  next
    case False
    then have le: "s \<le> 15 / 2" by simp
    note h = hit_safe [OF \<open>\<not> game_over ?g\<close> k s le]
    from le b2 have "base (player_hand ?g @ [c]) \<le> 15 / 2" by simp
    with h assms b1 c f show ?thesis
      by (simp add: round_inv_def conserved_def)
  qed
qed

subsection \<open>\<open>stay\<close>\<close>

lemma stay_settles:
  assumes "calculate_score (player_hand (gs w)) = Inr P"
    and "dealer_loop P (dealer_hand (gs w)) (deck (gs w)) = (None, d', k')"
    and "calculate_score d' = Inr D"
    and "find_player (players w) (current_player_id (gs w)) = Inr (Some (i, Some b))"
  shows "stay w =
     (Redirect,
      \<lparr>gs = (gs w)\<lparr>deck := k', dealer_hand := d',
                   result_message := (if player_wins P D then HaiVinto D else BancoVince D),
                   game_over := True\<rparr>,
       players = (players w)(i \<mapsto>
         store (if player_wins P D then fadd b (bet (gs w)) else fsub b (bet (gs w))))\<rparr>)"
  using assms by (cases "player_wins P D") (auto simp: stay_def Let_def player_wins_def)

lemma stay_null:
  assumes "calculate_score (player_hand (gs w)) = Inr P"
    and "dealer_loop P (dealer_hand (gs w)) (deck (gs w)) = (None, d', k')"
    and "calculate_score d' = Inr D"
    and "find_player (players w) (current_player_id (gs w)) = Inr (Some (i, None))"
  shows "stay w =
     (ServerError TypeError,
      w\<lparr>gs := (gs w)\<lparr>deck := k', dealer_hand := d',
                   result_message := (if player_wins P D then HaiVinto D else BancoVince D)\<rparr>\<rparr>)"
  using assms by (cases "player_wins P D") (auto simp: stay_def Let_def player_wins_def)

lemma stay_returns:
  assumes "stay w = (Redirect, w')"
  shows "\<exists>P d' k' D i b.
      calculate_score (player_hand (gs w)) = Inr P \<and>
      dealer_loop P (dealer_hand (gs w)) (deck (gs w)) = (None, d', k') \<and>
      calculate_score d' = Inr D \<and>
      find_player (players w) (current_player_id (gs w)) = Inr (Some (i, Some b))"
proof (cases "calculate_score (player_hand (gs w))")
  case (Inl e)
  with assms show ?thesis by (simp add: stay_def Let_def)
next
  case (Inr P)
  obtain e d' k' where l: "dealer_loop P (dealer_hand (gs w)) (deck (gs w)) = (e, d', k')"
    by (metis prod_cases3)
  show ?thesis
  proof (cases e)
    case (Some x)
    with assms Inr l show ?thesis by (simp add: stay_def Let_def)
  next
    case None
    show ?thesis
    proof (cases "calculate_score d'")
      case (Inl x)
      with assms Inr l None show ?thesis by (simp add: stay_def Let_def)
    next
      case D: (Inr D)
      show ?thesis
      proof (cases "find_player (players w) (current_player_id (gs w))")
        case (Inl x)
        with assms Inr l None D show ?thesis by (simp add: stay_def Let_def)
      next
        case f: (Inr row)
        show ?thesis
        proof (cases row)
          case n: None
          with assms Inr l None D f show ?thesis
            by (simp add: stay_def Let_def split: if_splits)
        next
          case (Some p)
          obtain i bo where p: "p = (i, bo)" by (cases p)
          show ?thesis
          proof (cases bo)
            case n: None
            with assms Inr l None D f Some p show ?thesis
              by (simp add: stay_def Let_def split: if_splits)
          next
            case b: (Some b)
            with Inr l None D f Some p show ?thesis by auto
          qed
        qed
      qed
    qed
  qed
qed

lemma round_inv_stay_facts:
  assumes "round_inv w"
  shows "\<exists>P d' k' D i b.
      calculate_score (player_hand (gs w)) = Inr P \<and>
      dealer_loop P (dealer_hand (gs w)) (deck (gs w)) = (None, d', k') \<and>
      calculate_score d' = Inr D \<and> dealer_stops P D \<and>
      find_player (players w) (current_player_id (gs w)) = Inr (Some (i, b)) \<and>
      (\<not> game_over (gs w) \<longrightarrow> b \<noteq> None)"
proof -
  let ?g = "gs w"
  from assms have cons: "conserved ?g" by (simp add: round_inv_def)
  note cards = conserved_cards [OF cons]
  from cards obtain P where P: "calculate_score (player_hand ?g) = Inr P"
    using score_of_cards [of "player_hand ?g"] by auto
  from assms have "base (player_hand ?g) \<le> 29 / 2" by (simp add: round_inv_def)
  with conserved_base [OF cons] have "15 / 2 < base (dealer_hand ?g) + base (deck ?g)" by simp
  moreover from cards have "\<forall>c\<in>set (dealer_hand ?g) \<union> set (deck ?g). is_card c" by auto
  ultimately have "fst (dealer_loop P (dealer_hand ?g) (deck ?g)) = None"
    by (rule dealer_loop_no_error [rotated])
  then obtain d' k' where l: "dealer_loop P (dealer_hand ?g) (deck ?g) = (None, d', k')"
    by (metis prod.collapse)
  from dealer_loop_final [OF l] obtain D where "calculate_score d' = Inr D" "dealer_stops P D"
    by blast
  moreover from assms obtain i b
    where "find_player (players w) (current_player_id ?g) = Inr (Some (i, b))"
      "\<not> game_over ?g \<longrightarrow> b \<noteq> None"
    by (auto simp: round_inv_def)
  ultimately show ?thesis using P l by blast
qed

lemma round_inv_stay:
  assumes "round_inv w"
  shows "round_inv (snd (stay w))"
proof -
  let ?g = "gs w"
  from round_inv_stay_facts [OF assms] obtain P d' k' D i bo
    where P: "calculate_score (player_hand ?g) = Inr P"
      and l: "dealer_loop P (dealer_hand ?g) (deck ?g) = (None, d', k')"
      and D: "calculate_score d' = Inr D"
      and f: "find_player (players w) (current_player_id ?g) = Inr (Some (i, bo))"
      and nn: "\<not> game_over ?g \<longrightarrow> bo \<noteq> None"
    by blast
  from dealer_loop_cards [OF l] have "mset (k' @ rev d') = mset (deck ?g @ rev (dealer_hand ?g))"
    by simp
  then have m: "mset k' + mset d' = mset (deck ?g) + mset (dealer_hand ?g)" by simp
  have "mset k' + mset (player_hand ?g) + mset d' = (mset k' + mset d') + mset (player_hand ?g)"
    by (simp add: ac_simps)
  also have "\<dots> = (mset (deck ?g) + mset (dealer_hand ?g)) + mset (player_hand ?g)"
    by (simp only: m)
  also have "\<dots> = mset (deck ?g) + mset (player_hand ?g) + mset (dealer_hand ?g)"
    by (simp add: ac_simps)
  also have "\<dots> = mset CARDS" using assms by (simp add: round_inv_def conserved_def)
  finally have c: "mset k' + mset (player_hand ?g) + mset d' = mset CARDS" .
  from assms have "base (dealer_hand ?g) \<le> 29 / 2" by (simp add: round_inv_def)
  with dealer_loop_base [OF l] have b: "base d' \<le> 29 / 2" by simp
  show ?thesis
  proof (cases bo)
    case None
    with nn have go: "game_over ?g" by blast
    from f None have f': "find_player (players w) (current_player_id ?g) = Inr (Some (i, None))"
      by simp
    from stay_null [OF P l D f'] assms c b f go show ?thesis
      by (simp add: round_inv_def conserved_def)
  next
    case (Some x)
    with f have f': "find_player (players w) (current_player_id ?g) = Inr (Some (i, Some x))"
      by simp
    note s = stay_settles [OF P l D f']
    from find_player_upd [OF f'] s assms c b show ?thesis
      by (simp add: round_inv_def conserved_def)
  qed
qed

subsection \<open>\<open>start_game\<close>, \<open>exit_game\<close> and the invariant\<close>

lemma round_inv_exit: "round_inv w \<Longrightarrow> round_inv (snd (exit_game w))"
  by (simp add: exit_game_def round_inv_def conserved_def)

lemma shuffled_deck_split:
  assumes "shuffled_deck d"
  shows "\<exists>k c2 c1. d = k @ [c2, c1]"
proof -
  from assms have "size (mset d) = size (mset CARDS)" by (simp add: shuffled_deck_def)
  moreover have "length CARDS = 40" by code_simp
  ultimately have "length d = 40" by simp
  then obtain k c1 where d: "d = k @ [c1]" by (metis rev_exhaust list.size(3) zero_neq_numeral)
  with \<open>length d = 40\<close> have "length k = 39" by simp
  then obtain k0 c2 where "k = k0 @ [c2]" by (metis rev_exhaust list.size(3) zero_neq_numeral)
  with d show ?thesis by simp
qed

lemma accepted_row:
  "accepted player_id bet_amount w \<longleftrightarrow>
     int64 player_id \<and>
     (\<exists>b. players w player_id = Some (Some b) \<and> \<not> flt b bet_amount \<and>
        \<not> fle bet_amount (Finite 0))"
  by (auto simp: accepted_def find_player_def split: option.splits)

lemma start_game_unchanged: "\<not> accepted player_id bet_amount w \<Longrightarrow>
   snd (start_game player_id bet_amount d w) = w"
  by (auto simp: accepted_def start_game_def split: sum.splits option.splits prod.splits)

lemma start_game_declined:
  assumes "int64 player_id"
    and "players w player_id = None \<or>
      (\<exists>b. players w player_id = Some (Some b) \<and>
         (fle bet_amount (Finite 0) \<or> flt b bet_amount))"
  shows "start_game player_id bet_amount d w = (Redirect, w)"
  using assms by (auto simp: start_game_def find_player_def)

lemma start_game_overflow:
  "\<not> int64 player_id \<Longrightarrow> start_game player_id bet_amount d w = (ServerError OverflowError, w)"
  by (simp add: start_game_def find_player_def)

lemma start_game_null:
  "int64 player_id \<Longrightarrow> players w player_id = Some None \<Longrightarrow>
   start_game player_id bet_amount d w = (ServerError TypeError, w)"
  by (simp add: start_game_def find_player_def)

lemma start_game_accepted:
  assumes "accepted player_id bet_amount w"
  shows "start_game player_id bet_amount (k @ [c2, c1]) w =
     (Redirect,
      w\<lparr>gs := \<lparr>deck = k, player_hand = [c1], dealer_hand = [c2],
               current_player_id = Some player_id, bet = bet_amount, game_over = False,
               result_message = NoMessage, active = True\<rparr>\<rparr>)"
proof -
  have "pop (k @ [c2, c1]) = Inr (c1, k @ [c2])" using pop_snoc [of "k @ [c2]" c1] by simp
  moreover from assms obtain b where "int64 player_id" "players w player_id = Some (Some b)"
    "\<not> flt b bet_amount" "\<not> fle bet_amount (Finite 0)"
    by (auto simp: accepted_row)
  ultimately show ?thesis by (simp add: start_game_def find_player_def pop_snoc)
qed

lemma round_inv_start:
  assumes "accepted player_id bet_amount w" and "shuffled_deck d"
  shows "round_inv (snd (start_game player_id bet_amount d w))"
proof -
  from shuffled_deck_split [OF assms(2)] obtain k c2 c1 where d: "d = k @ [c2, c1]" by blast
  from assms(2) d have "mset k + mset [c1] + mset [c2] = mset CARDS"
    by (simp add: shuffled_deck_def)
  moreover have "face_value c1 \<le> 7" "face_value c2 \<le> 7" by (simp_all add: face_value_bounds)
  moreover from assms(1) obtain b where "int64 player_id" "players w player_id = Some (Some b)"
    by (auto simp: accepted_row)
  ultimately show ?thesis
    unfolding d start_game_accepted [OF assms(1)]
    by (simp add: round_inv_def conserved_def base_def find_player_def)
qed

lemma round_inv_handle:
  assumes "round_inv w" and "fair r"
  shows "round_inv (snd (handle r w))"
proof (cases r)
  case (Start player_id bet_amount d)
  show ?thesis
  proof (cases "accepted player_id bet_amount w")
    case False
    from start_game_unchanged [OF False] assms(1) Start show ?thesis by simp
  next
    case True
    moreover from assms(2) Start have "shuffled_deck d" by simp
    ultimately show ?thesis using Start by (simp add: round_inv_start)
  qed
next
  case Hit
  with assms show ?thesis by (simp add: round_inv_hit)
next
  case Stay
  with assms show ?thesis by (simp add: round_inv_stay)
next
  case Exit
  with assms show ?thesis by (simp add: round_inv_exit)
qed

lemma reachable_round_inv: "reachable w \<Longrightarrow> round_inv w"
  by (induction rule: reachable.induct) (simp_all add: round_inv_start round_inv_handle)

subsection \<open>Cards only move from the deck to a hand\<close>

lemma start_game_players: "players (snd (start_game player_id bet_amount d w)) = players w"
  by (simp add: start_game_def split: option.splits sum.splits prod.splits)

lemma hit_current_player:
  "current_player_id (gs (snd (hit w))) = current_player_id (gs w) \<and>
   bet (gs (snd (hit w))) = bet (gs w)"
  by (simp add: hit_def Let_def split: sum.splits option.splits prod.splits)

lemma append_moved:
  assumes "k' @ rev d' = k @ rev d" and "length d \<le> length d'"
  shows "\<exists>moved. k = k' @ moved \<and> d' = d @ rev moved"
proof -
  from assms(1) have "rev (k' @ rev d') = rev (k @ rev d)" by simp
  then have e: "d' @ rev k' = d @ rev k" by simp
  then obtain us
    where "(d' = d @ us \<and> us @ rev k' = rev k) \<or> (d' @ us = d \<and> rev k' = us @ rev k)"
    by (auto simp: append_eq_append_conv2)
  then show ?thesis
  proof
    assume a: "d' = d @ us \<and> us @ rev k' = rev k"
    then have "rev (rev k) = rev (us @ rev k')" by simp
    then have "k = k' @ rev us" by simp
    with a show ?thesis by auto
  next
    assume a: "d' @ us = d \<and> rev k' = us @ rev k"
    then have "length (d' @ us) = length d" by simp
    with assms(2) have "length us = 0" by (simp only: length_append)
    then have "us = []" by simp
    with a show ?thesis by auto
  qed
qed

lemma hit_moves:
  "\<exists>moved. deck (gs w) = deck (gs (snd (hit w))) @ moved \<and>
     player_hand (gs (snd (hit w))) = player_hand (gs w) @ rev moved \<and>
     dealer_hand (gs (snd (hit w))) = dealer_hand (gs w)"
proof (cases "game_over (gs w) \<or> deck (gs w) = []")
  case True
  then have "gs (snd (hit w)) = gs w" by (auto simp: hit_def Let_def pop_def)
  then show ?thesis by simp
next
  case False
  then obtain k c where k: "deck (gs w) = k @ [c]" by (metis rev_exhaust)
  with False have "deck (gs (snd (hit w))) = k \<and>
     player_hand (gs (snd (hit w))) = player_hand (gs w) @ [c] \<and>
     dealer_hand (gs (snd (hit w))) = dealer_hand (gs w)"
    by (simp add: hit_def Let_def pop_snoc split: sum.splits option.splits prod.splits)
  with k show ?thesis by simp
qed

lemma stay_moves:
  "\<exists>moved. deck (gs w) = deck (gs (snd (stay w))) @ moved \<and>
     dealer_hand (gs (snd (stay w))) = dealer_hand (gs w) @ rev moved \<and>
     player_hand (gs (snd (stay w))) = player_hand (gs w)"
proof (cases "calculate_score (player_hand (gs w))")
  case (Inl e)
  then have "gs (snd (stay w)) = gs w" by (simp add: stay_def Let_def)
  then show ?thesis by simp
next
  case (Inr P)
  obtain e d' k' where l: "dealer_loop P (dealer_hand (gs w)) (deck (gs w)) = (e, d', k')"
    by (metis prod_cases3)
  from Inr l have "deck (gs (snd (stay w))) = k' \<and> dealer_hand (gs (snd (stay w))) = d' \<and>
      player_hand (gs (snd (stay w))) = player_hand (gs w)"
    by (simp add: stay_def Let_def split: sum.splits option.splits prod.splits)
  moreover from dealer_loop_cards [OF l] append_moved
  obtain moved where "deck (gs w) = k' @ moved" "d' = dealer_hand (gs w) @ rev moved"
    by blast
  ultimately show ?thesis by simp
qed

lemma dealer_loop_trace:
  "dealer_loop P d k = (None, d', k') \<Longrightarrow>
   \<exists>drawn. k = k' @ drawn \<and> d' = d @ rev drawn \<and>
     (\<forall>n < length drawn. \<exists>Dn.
        calculate_score (d @ take n (rev drawn)) = Inr Dn \<and> \<not> dealer_stops P Dn)"
proof (induction P d k rule: dealer_loop_cases)
  case (raises P d k x)
  then show ?case by (simp add: dealer_loop_KeyError)
next
  case (stops P d k D)
  then show ?case by (simp add: dealer_loop_stop)
next
  case (empty P d D)
  then show ?case by (simp add: dealer_loop_empty)
next
  case (draws P d k c D)
  from draws(1,2,4) have "dealer_loop P (d @ [c]) k = (None, d', k')"
    by (simp add: dealer_loop_draw)
  from draws(3) [OF this] obtain drawn0
    where k: "k = k' @ drawn0" and d': "d' = (d @ [c]) @ rev drawn0"
      and tr: "\<forall>n < length drawn0. \<exists>Dn.
        calculate_score ((d @ [c]) @ take n (rev drawn0)) = Inr Dn \<and> \<not> dealer_stops P Dn"
    by blast
  have "\<exists>Dn. calculate_score (d @ take n (rev (drawn0 @ [c]))) = Inr Dn \<and> \<not> dealer_stops P Dn"
    if n: "n < length (drawn0 @ [c])" for n
  proof (cases n)
    case 0
    with draws(1,2) show ?thesis by simp
  next
    case (Suc m)
    with n have "m < length drawn0" by simp
    with tr Suc show ?thesis by simp
  qed
  with k d' have "k @ [c] = k' @ (drawn0 @ [c]) \<and> d' = d @ rev (drawn0 @ [c]) \<and>
     (\<forall>n < length (drawn0 @ [c]). \<exists>Dn.
        calculate_score (d @ take n (rev (drawn0 @ [c]))) = Inr Dn \<and> \<not> dealer_stops P Dn)"
    by simp
  then show ?case by blast
qed

lemma dealer_loop_errors:
  "dealer_loop P d k = (e, d', k') \<Longrightarrow>
   e = None \<or> e = Some KeyError \<or> (e = Some IndexError \<and> k' = [])"
proof (induction P d k rule: dealer_loop_cases)
  case (raises P d k x)
  then show ?case
    by (cases x) (auto simp: dealer_loop_KeyError calculate_score_eq split: if_splits)
next
  case (stops P d k D)
  then show ?case by (simp add: dealer_loop_stop)
next
  case (empty P d D)
  then show ?case by (auto simp: dealer_loop_empty)
next
  case (draws P d k c D)
  then show ?case by (simp add: dealer_loop_draw)
qed

subsection \<open>What \<open>hit\<close> and \<open>stay\<close> do not read\<close>

lemma hit_ignores_dealer_hand:
  "hit (w\<lparr>gs := (gs w)\<lparr>dealer_hand := dh\<rparr>\<rparr>) =
     (fst (hit w), (snd (hit w))\<lparr>gs := (gs (snd (hit w)))\<lparr>dealer_hand := dh\<rparr>\<rparr>)"
proof (cases "game_over (gs w)")
  case True
  then show ?thesis by (simp add: hit_def Let_def)
next
  case False
  show ?thesis
  proof (cases "pop (deck (gs w))")
    case (Inl e)
    with False show ?thesis by (simp add: hit_def Let_def)
  next
    case (Inr p)
    obtain c k where p: "p = (c, k)" by (cases p)
    show ?thesis
    proof (cases "calculate_score (player_hand (gs w) @ [c])")
      case (Inl e)
      with False Inr p show ?thesis by (simp add: hit_def Let_def)
    next
      case s: (Inr s)
      with False Inr p show ?thesis
        by (simp add: hit_def Let_def split: sum.splits option.splits prod.splits)
    qed
  qed
qed

lemma hit_ignores_active:
  "hit (w\<lparr>gs := (gs w)\<lparr>active := a\<rparr>\<rparr>) =
     (fst (hit w), (snd (hit w))\<lparr>gs := (gs (snd (hit w)))\<lparr>active := a\<rparr>\<rparr>)"
proof (cases "game_over (gs w)")
  case True
  then show ?thesis by (simp add: hit_def Let_def)
next
  case False
  show ?thesis
  proof (cases "pop (deck (gs w))")
    case (Inl e)
    with False show ?thesis by (simp add: hit_def Let_def)
  next
    case (Inr p)
    obtain c k where p: "p = (c, k)" by (cases p)
    show ?thesis
    proof (cases "calculate_score (player_hand (gs w) @ [c])")
      case (Inl e)
      with False Inr p show ?thesis by (simp add: hit_def Let_def)
    next
      case s: (Inr s)
      with False Inr p show ?thesis
        by (simp add: hit_def Let_def split: sum.splits option.splits prod.splits)
    qed
  qed
qed

lemma stay_ignores_active:
  "stay (w\<lparr>gs := (gs w)\<lparr>active := a\<rparr>\<rparr>) =
     (fst (stay w), (snd (stay w))\<lparr>gs := (gs (snd (stay w)))\<lparr>active := a\<rparr>\<rparr>)"
proof (cases "calculate_score (player_hand (gs w))")
  case (Inl e)
  then show ?thesis by (simp add: stay_def Let_def)
next
  case (Inr P)
  obtain e d' k' where l: "dealer_loop P (dealer_hand (gs w)) (deck (gs w)) = (e, d', k')"
    by (metis prod_cases3)
  show ?thesis
  proof (cases e)
    case (Some x)
    with Inr l show ?thesis by (simp add: stay_def Let_def)
  next
    case None
    show ?thesis
    proof (cases "calculate_score d'")
      case (Inl x)
      with Inr l None show ?thesis by (simp add: stay_def Let_def)
    next
      case D: (Inr D)
      with Inr l None show ?thesis
        by (auto simp: stay_def Let_def split: sum.splits option.splits prod.splits)
    qed
  qed
qed

lemma initial_hit: "gs w = initial_game_state \<Longrightarrow> hit w = (ServerError IndexError, w)"
  by (simp add: hit_def Let_def initial_game_state_def pop_Nil)

lemma initial_stay:
  assumes "gs w = initial_game_state"
  shows "stay w = (ServerError IndexError, w)"
proof -
  have s: "calculate_score [] = Inr 0" by (simp add: calculate_score_def)
  have "\<not> dealer_stops 0 0" by (simp add: dealer_stops_def)
  with s have l: "dealer_loop 0 [] [] = (Some IndexError, [], [])" by (rule dealer_loop_empty)
  have g: "deck (gs w) = []" "dealer_hand (gs w) = []" "player_hand (gs w) = []"
    using assms by (simp_all add: initial_game_state_def)
  then have "(gs w)\<lparr>deck := [], dealer_hand := []\<rparr> = gs w" by simp
  with g s l show ?thesis by (simp add: stay_def Let_def)
qed

subsection \<open>The sample states are reachable\<close>

lemma shuffled_deck_CARDS: "shuffled_deck CARDS"
  by (simp add: shuffled_deck_def)

lemma shuffled_deck_rev_CARDS: "shuffled_deck (rev CARDS)"
  by (simp add: shuffled_deck_def)

lemma accepted_example_20: "accepted 1 (Finite 20) example_world"
  by (simp add: accepted_row int64_def example_world_def)

lemma accepted_example_tiny: "accepted 1 tiny_bet example_world"
  by (simp add: accepted_row int64_def example_world_def tiny_bet_def)

lemma reachable_started_world: "reachable started_world"
  unfolding started_world_def
  by (rule reachable.start [OF accepted_example_20 shuffled_deck_CARDS])

lemma reachable_settled_world: "reachable settled_world"
  unfolding settled_world_def
  using reachable.step [OF reachable_started_world, of Stay] by simp

lemma reachable_exited_world: "reachable exited_world"
  unfolding exited_world_def
  using reachable.step [OF reachable_started_world, of Exit] by simp

lemma reachable_busting_world: "reachable busting_world"
proof -
  have "reachable (snd (start_game 1 (Finite 20) (rev CARDS) example_world))"
    by (rule reachable.start [OF accepted_example_20 shuffled_deck_rev_CARDS])
  then have "reachable (snd (handle Hit (snd (start_game 1 (Finite 20) (rev CARDS)
      example_world))))"
    by (rule reachable.step) simp
  then show ?thesis by (simp add: busting_world_def)
qed

lemma reachable_tiny_started_world: "reachable tiny_started_world"
  unfolding tiny_started_world_def
  by (rule reachable.start [OF accepted_example_tiny shuffled_deck_CARDS])

lemma reachable_tiny_busting_world: "reachable tiny_busting_world"
proof -
  have "reachable (snd (start_game 1 tiny_bet (rev CARDS) example_world))"
    by (rule reachable.start [OF accepted_example_tiny shuffled_deck_rev_CARDS])
  then have "reachable (snd (handle Hit (snd (start_game 1 tiny_bet (rev CARDS)
      example_world))))"
    by (rule reachable.step) simp
  then show ?thesis by (simp add: tiny_busting_world_def)
qed

section \<open>The claims\<close>

text \<open>
  C1. On every hand of cards (ranks 1 to 10) \<open>calculate_score\<close> returns the score of the
  specification's reference algorithm: the sum of \<open>cardValue\<close> over the cards that are not
  rank 10, then one application of the wildcard rule per rank-10 card. Every running score
  the rule meets is 0, or at least 7, or a positive integer below 7, or has fractional part
  one half and is below 7, so the rule's last case is always the half-integer one. The five
  sample hands score 0.5, 7.5, 7.0, 8.0 and 1.0.
\<close>

theorem calculate_score_refines_spec:
  "((\<forall>c\<in>set hand. 1 \<le> c \<and> c \<le> 10) \<longrightarrow>
      calculate_score hand = Inr (score_spec hand) \<and>
      (\<forall>k. let r = (wildcard_rule ^^ k) (sum_list (map cardValue (filter (\<lambda>c. c \<noteq> 10) hand)))
           in r = 0 \<or> r \<ge> 7 \<or> (0 < r \<and> r < 7 \<and> frac r = 0) \<or> (r < 7 \<and> frac r = 1 / 2))) \<and>
   calculate_score [10] = Inr (1 / 2) \<and>
   calculate_score [10, 10] = Inr (15 / 2) \<and>
   calculate_score [10, 3] = Inr 7 \<and>
   calculate_score [7, 1] = Inr 8 \<and>
   calculate_score [8, 9] = Inr 1"
proof -
  have general: "calculate_score hand = Inr (score_spec hand)"
    and classes: "\<forall>k. let r = (wildcard_rule ^^ k) (sum_list (map cardValue (filter (\<lambda>c. c \<noteq> 10) hand)))
           in r = 0 \<or> r \<ge> 7 \<or> (0 < r \<and> r < 7 \<and> frac r = 0) \<or> (r < 7 \<and> frac r = 1 / 2)"
    if v: "\<forall>c\<in>set hand. 1 \<le> c \<and> c \<le> 10"
  proof -
    from v have c: "\<forall>c\<in>set hand. is_card c" by (simp add: is_card_def)
    then show "calculate_score hand = Inr (score_spec hand)"
      by (simp add: calculate_score_eq score_spec_def wildcard_rule_matta base_cardValue
          count_list_filter)
    show "\<forall>k. let r = (wildcard_rule ^^ k) (sum_list (map cardValue (filter (\<lambda>c. c \<noteq> 10) hand)))
           in r = 0 \<or> r \<ge> 7 \<or> (0 < r \<and> r < 7 \<and> frac r = 0) \<or> (r < 7 \<and> frac r = 1 / 2)"
    proof
      fix k
      have "half_int ((matta ^^ k) (base hand))" by (simp add: half_int_matta_pow half_int_base)
      from half_int_frac [OF this] show "let r = (wildcard_rule ^^ k) (sum_list (map cardValue (filter (\<lambda>c. c \<noteq> 10) hand)))
           in r = 0 \<or> r \<ge> 7 \<or> (0 < r \<and> r < 7 \<and> frac r = 0) \<or> (r < 7 \<and> frac r = 1 / 2)"
        unfolding Let_def wildcard_rule_matta base_cardValue [symmetric] by linarith
    qed
  qed
  have e1: "calculate_score [10] = Inr (1 / 2)" by code_simp
  have e2: "calculate_score [10, 10] = Inr (15 / 2)" by code_simp
  have e3: "calculate_score [10, 3] = Inr 7" by code_simp
  have e4: "calculate_score [7, 1] = Inr 8" by code_simp
  have e5: "calculate_score [8, 9] = Inr 1" by code_simp
  from general classes e1 e2 e3 e4 e5 show ?thesis by blast
qed

theorem calculate_score_refines_spec_witness:
  "list_all (\<lambda>c. 1 \<le> c \<and> c \<le> 10) [10, 3, 8 :: int] \<and>
   calculate_score [10, 3, 8] = Inr (score_spec [10, 3, 8]) \<and>
   calculate_score [10, 3, 8] = Inr (15 / 2)"
proof -
  have v: "list_all (\<lambda>c. 1 \<le> c \<and> c \<le> 10) [10, 3, 8 :: int]" by simp
  have e: "calculate_score [10, 3, 8] = Inr (15 / 2)" by code_simp
  from v have "\<forall>c\<in>set [10, 3, 8 :: int]. 1 \<le> c \<and> c \<le> 10" by simp
  with v e calculate_score_refines_spec [of "[10, 3, 8]"] show ?thesis by blast
qed

text \<open>
  C2, as stated, fails: balances are floats. \<open>tiny_started_world\<close> is a round in progress
  for the accepted bet \<open>2 ^ -48\<close> at the balance 100.0. The player stands on 0.5, the dealer
  draws to 8 and is bust, the player wins, and the balance is 100.0 as before: the sum
  \<open>100 + 2 ^ -48\<close> is no binary64 number and rounds to 100.0.
\<close>

theorem stay_settlement_counterexample:
  "bet (gs tiny_started_world) = Finite (1 / 2 ^ 48) \<and>
   players tiny_started_world 1 = Some (Some (Finite 100)) \<and>
   status_of (gs tiny_started_world) = InProgress \<and>
   calculate_score (player_hand (gs tiny_started_world)) = Inr (1 / 2) \<and>
   calculate_score (dealer_hand (gs (snd (stay tiny_started_world)))) = Inr 8 \<and>
   player_wins (1 / 2) 8 \<and>
   fst (stay tiny_started_world) = Redirect \<and>
   result_message (gs (snd (stay tiny_started_world))) = HaiVinto 8 \<and>
   players (snd (stay tiny_started_world)) 1 = Some (Some (Finite 100))"
  by code_simp

text \<open>
  C2, amended. The settlement of \<open>stay\<close>. Whenever \<open>stay\<close> returns, from any state and for
  any bet, the bettor's balance \<open>b\<close> is replaced by the float sum of \<open>b\<close> and the bet (the
  binary64 value nearest to \<open>b + bet\<close>) if the player's score \<open>P\<close> and the dealer's final
  score \<open>D\<close> satisfy \<open>P \<le> 7.5\<close> and (\<open>D > 7.5\<close> or \<open>P > D\<close>), and by the float difference of
  \<open>b\<close> and the bet in every other case, a tie included; the table stores the result (a NaN
  as NULL), no other row changes, the message names the winner and the round is over. No
  third branch exists. In every state reachable from an accepted start in which the round
  is not over, \<open>stay\<close> does return. The three sample settlements: 7.5 against 7 wins, 6
  against 6 loses, 8 loses against any dealer score.
\<close>

theorem stay_settlement:
  "(stay w = (Redirect, w') \<longrightarrow>
     (\<exists>P D i b.
        calculate_score (player_hand (gs w)) = Inr P \<and>
        calculate_score (dealer_hand (gs w')) = Inr D \<and>
        current_player_id (gs w) = Some i \<and> players w i = Some (Some b) \<and>
        players w' =
          (players w)(i \<mapsto>
            store (if player_wins P D then fadd b (bet (gs w)) else fsub b (bet (gs w)))) \<and>
        result_message (gs w') = (if player_wins P D then HaiVinto D else BancoVince D) \<and>
        game_over (gs w'))) \<and>
   (reachable w \<and> \<not> game_over (gs w) \<longrightarrow> fst (stay w) = Redirect) \<and>
   player_wins (15 / 2) 7 \<and> \<not> player_wins 6 6 \<and> \<not> player_wins 8 D0"
proof (intro conjI impI)
  assume a: "stay w = (Redirect, w')"
  from stay_returns [OF a] obtain P d' k' D i b
    where P: "calculate_score (player_hand (gs w)) = Inr P"
      and l: "dealer_loop P (dealer_hand (gs w)) (deck (gs w)) = (None, d', k')"
      and D: "calculate_score d' = Inr D"
      and f: "find_player (players w) (current_player_id (gs w)) = Inr (Some (i, Some b))"
    by blast
  from stay_settles [OF P l D f] a have w': "w' =
      \<lparr>gs = (gs w)\<lparr>deck := k', dealer_hand := d',
                   result_message := (if player_wins P D then HaiVinto D else BancoVince D),
                   game_over := True\<rparr>,
       players = (players w)(i \<mapsto>
         store (if player_wins P D then fadd b (bet (gs w)) else fsub b (bet (gs w))))\<rparr>"
    by simp
  from f have i: "current_player_id (gs w) = Some i" "players w i = Some (Some b)"
    by (simp_all add: find_player_row)
  have "calculate_score (dealer_hand (gs w')) = Inr D" using D by (simp add: w')
  moreover have "players w' =
          (players w)(i \<mapsto>
            store (if player_wins P D then fadd b (bet (gs w)) else fsub b (bet (gs w))))"
    by (simp add: w')
  moreover have "result_message (gs w') = (if player_wins P D then HaiVinto D else BancoVince D)"
    by (simp add: w')
  moreover have "game_over (gs w')" by (simp add: w')
  ultimately show "\<exists>P D i b.
        calculate_score (player_hand (gs w)) = Inr P \<and>
        calculate_score (dealer_hand (gs w')) = Inr D \<and>
        current_player_id (gs w) = Some i \<and> players w i = Some (Some b) \<and>
        players w' =
          (players w)(i \<mapsto>
            store (if player_wins P D then fadd b (bet (gs w)) else fsub b (bet (gs w)))) \<and>
        result_message (gs w') = (if player_wins P D then HaiVinto D else BancoVince D) \<and>
        game_over (gs w')"
    using P i by blast
next
  assume r: "reachable w \<and> \<not> game_over (gs w)"
  then have inv: "round_inv w" by (simp add: reachable_round_inv)
  from round_inv_stay_facts [OF inv] r obtain P d' k' D i b
    where P: "calculate_score (player_hand (gs w)) = Inr P"
      and l: "dealer_loop P (dealer_hand (gs w)) (deck (gs w)) = (None, d', k')"
      and D: "calculate_score d' = Inr D"
      and f: "find_player (players w) (current_player_id (gs w)) = Inr (Some (i, Some b))"
    by blast
  from stay_settles [OF P l D f] show "fst (stay w) = Redirect" by simp
next
  show "player_wins (15 / 2) 7" by (simp add: player_wins_def)
  show "\<not> player_wins 6 6" by (simp add: player_wins_def)
  show "\<not> player_wins 8 D0" by (simp add: player_wins_def)
qed

theorem stay_settlement_witness:
  "reachable started_world \<and> game_over (gs started_world) = False \<and>
   stay started_world = (Redirect, snd (stay started_world)) \<and>
   calculate_score (player_hand (gs started_world)) = Inr (1 / 2) \<and>
   calculate_score (dealer_hand (gs (snd (stay started_world)))) = Inr 8 \<and>
   player_wins (1 / 2) 8 \<and>
   bet (gs started_world) = Finite 20 \<and>
   players started_world 1 = Some (Some (Finite 100)) \<and>
   fadd (Finite 100) (Finite 20) = Finite 120 \<and>
   players (snd (stay started_world)) 1 = Some (Some (Finite 120)) \<and>
   game_over (gs (snd (stay started_world)))"
proof -
  note t = stay_settlement [of started_world "snd (stay started_world)"]
  have g: "game_over (gs started_world) = False" by code_simp
  with t reachable_started_world have "fst (stay started_world) = Redirect" by blast
  then have r: "stay started_world = (Redirect, snd (stay started_world))"
    by (metis prod.collapse)
  with t have "game_over (gs (snd (stay started_world)))" by blast
  moreover have "calculate_score (player_hand (gs started_world)) = Inr (1 / 2)"
    "calculate_score (dealer_hand (gs (snd (stay started_world)))) = Inr 8"
    "bet (gs started_world) = Finite 20"
    "players started_world 1 = Some (Some (Finite 100))"
    "fadd (Finite 100) (Finite 20) = Finite 120"
    "players (snd (stay started_world)) 1 = Some (Some (Finite 120))"
    by code_simp+
  moreover have "player_wins (1 / 2) 8" by (simp add: player_wins_def)
  ultimately show ?thesis using r g reachable_started_world by blast
qed

text \<open>
  C3, as stated, fails: balances are floats. \<open>tiny_busting_world\<close> is a round in progress
  for the accepted bet \<open>2 ^ -48\<close> at the balance 100.0, the player holding 1 and 3. \<open>hit\<close>
  draws the 4, the player is bust with 8 and the round is settled with the bust message,
  but the balance is 100.0 as before: the difference \<open>100 - 2 ^ -48\<close> is no binary64 number
  and rounds to 100.0.
\<close>

theorem hit_in_progress_counterexample:
  "bet (gs tiny_busting_world) = Finite (1 / 2 ^ 48) \<and>
   players tiny_busting_world 1 = Some (Some (Finite 100)) \<and>
   status_of (gs tiny_busting_world) = InProgress \<and>
   player_hand (gs (snd (hit tiny_busting_world))) = [1, 3, 4] \<and>
   calculate_score [1, 3, 4] = Inr 8 \<and>
   status_of (gs (snd (hit tiny_busting_world))) = Settled \<and>
   result_message (gs (snd (hit tiny_busting_world))) = Sballato \<and>
   players (snd (hit tiny_busting_world)) 1 = Some (Some (Finite 100))"
  by code_simp

text \<open>
  C3, amended. \<open>hit\<close> on a round in progress, in any state reachable from an accepted
  start. The deck is not empty and the bettor's row holds a float \<open>b\<close>; the top card goes
  to the player's hand. If the new score exceeds 7.5 the round is settled at once with the
  bust message and the bettor's balance is replaced by the float difference of \<open>b\<close> and the
  bet (the binary64 value nearest to \<open>b - bet\<close>, a NaN being stored as NULL); the deck loses
  that one card only and the dealer's hand is as before. If the new score is at most 7.5
  the round stays in progress and no balance changes. In every state, what \<open>hit\<close> does is
  independent of the dealer's hand: replacing it changes nothing but the dealer's hand of
  the resulting state.
\<close>

theorem hit_in_progress:
  "(reachable w \<and> status_of (gs w) = InProgress \<longrightarrow>
     (\<exists>k c s i b.
        deck (gs w) = k @ [c] \<and>
        calculate_score (player_hand (gs w) @ [c]) = Inr s \<and>
        current_player_id (gs w) = Some i \<and> players w i = Some (Some b) \<and>
        (s > 15 / 2 \<longrightarrow>
           hit w =
             (Redirect,
              \<lparr>gs = (gs w)\<lparr>deck := k, player_hand := player_hand (gs w) @ [c],
                           game_over := True, result_message := Sballato\<rparr>,
               players = (players w)(i \<mapsto> store (fsub b (bet (gs w))))\<rparr>) \<and>
           status_of (gs (snd (hit w))) = Settled) \<and>
        (s \<le> 15 / 2 \<longrightarrow>
           hit w =
             (Redirect,
              w\<lparr>gs := (gs w)\<lparr>deck := k, player_hand := player_hand (gs w) @ [c]\<rparr>\<rparr>) \<and>
           status_of (gs (snd (hit w))) = InProgress \<and>
           players (snd (hit w)) = players w))) \<and>
   (\<forall>dh. hit (w\<lparr>gs := (gs w)\<lparr>dealer_hand := dh\<rparr>\<rparr>) =
      (fst (hit w), (snd (hit w))\<lparr>gs := (gs (snd (hit w)))\<lparr>dealer_hand := dh\<rparr>\<rparr>))"
proof (intro conjI impI allI)
  fix dh
  show "hit (w\<lparr>gs := (gs w)\<lparr>dealer_hand := dh\<rparr>\<rparr>) =
      (fst (hit w), (snd (hit w))\<lparr>gs := (gs (snd (hit w)))\<lparr>dealer_hand := dh\<rparr>\<rparr>)"
    by (rule hit_ignores_dealer_hand)
next
  assume a: "reachable w \<and> status_of (gs w) = InProgress"
  then have inv: "round_inv w" by (simp add: reachable_round_inv)
  from a have st: "active (gs w)" "\<not> game_over (gs w)"
    by (auto simp: status_of_def split: if_splits)
  from round_inv_hit_facts [OF inv st(2)] obtain k c s i b
    where k: "deck (gs w) = k @ [c]"
      and s: "calculate_score (player_hand (gs w) @ [c]) = Inr s"
      and f: "find_player (players w) (current_player_id (gs w)) = Inr (Some (i, Some b))"
    by blast
  from f have i: "current_player_id (gs w) = Some i" "players w i = Some (Some b)"
    by (simp_all add: find_player_row)
  have bust: "hit w =
             (Redirect,
              \<lparr>gs = (gs w)\<lparr>deck := k, player_hand := player_hand (gs w) @ [c],
                           game_over := True, result_message := Sballato\<rparr>,
               players = (players w)(i \<mapsto> store (fsub b (bet (gs w))))\<rparr>) \<and>
           status_of (gs (snd (hit w))) = Settled" if "s > 15 / 2"
    using hit_bust [OF st(2) k s that f] st by (simp add: status_of_def)
  have safe: "hit w =
             (Redirect,
              w\<lparr>gs := (gs w)\<lparr>deck := k, player_hand := player_hand (gs w) @ [c]\<rparr>\<rparr>) \<and>
           status_of (gs (snd (hit w))) = InProgress \<and>
           players (snd (hit w)) = players w" if "s \<le> 15 / 2"
    using hit_safe [OF st(2) k s that] st by (simp add: status_of_def)
  from k s i bust safe show "\<exists>k c s i b.
        deck (gs w) = k @ [c] \<and>
        calculate_score (player_hand (gs w) @ [c]) = Inr s \<and>
        current_player_id (gs w) = Some i \<and> players w i = Some (Some b) \<and>
        (s > 15 / 2 \<longrightarrow>
           hit w =
             (Redirect,
              \<lparr>gs = (gs w)\<lparr>deck := k, player_hand := player_hand (gs w) @ [c],
                           game_over := True, result_message := Sballato\<rparr>,
               players = (players w)(i \<mapsto> store (fsub b (bet (gs w))))\<rparr>) \<and>
           status_of (gs (snd (hit w))) = Settled) \<and>
        (s \<le> 15 / 2 \<longrightarrow>
           hit w =
             (Redirect,
              w\<lparr>gs := (gs w)\<lparr>deck := k, player_hand := player_hand (gs w) @ [c]\<rparr>\<rparr>) \<and>
           status_of (gs (snd (hit w))) = InProgress \<and>
           players (snd (hit w)) = players w)"
    by blast
qed

theorem hit_in_progress_witness:
  "(reachable busting_world \<and> status_of (gs busting_world) = InProgress) \<and>
   calculate_score (player_hand (gs busting_world) @ [last (deck (gs busting_world))]) = Inr 8 \<and>
   status_of (gs (snd (hit busting_world))) = Settled \<and>
   result_message (gs (snd (hit busting_world))) = Sballato \<and>
   players busting_world 1 = Some (Some (Finite 100)) \<and>
   fsub (Finite 100) (Finite 20) = Finite 80 \<and>
   players (snd (hit busting_world)) 1 = Some (Some (Finite 80)) \<and>
   dealer_hand (gs (snd (hit busting_world))) = dealer_hand (gs busting_world) \<and>
   (reachable started_world \<and> status_of (gs started_world) = InProgress) \<and>
   calculate_score (player_hand (gs started_world) @ [last (deck (gs started_world))]) =
     Inr (15 / 2) \<and>
   status_of (gs (snd (hit started_world))) = InProgress \<and>
   players (snd (hit started_world)) = players started_world"
proof -
  have b: "status_of (gs busting_world) = InProgress" by code_simp
  have s: "status_of (gs started_world) = InProgress" by code_simp
  have e: "result_message (gs (snd (hit busting_world))) = Sballato"
    "players busting_world 1 = Some (Some (Finite 100))"
    "fsub (Finite 100) (Finite 20) = Finite 80"
    "players (snd (hit busting_world)) 1 = Some (Some (Finite 80))"
    "dealer_hand (gs (snd (hit busting_world))) = dealer_hand (gs busting_world)"
    by code_simp+
  have sb: "calculate_score (player_hand (gs busting_world) @ [last (deck (gs busting_world))]) =
      Inr 8"
    by code_simp
  have sc: "calculate_score (player_hand (gs started_world) @ [last (deck (gs started_world))]) =
      Inr (15 / 2)"
    by code_simp
  from hit_in_progress [of busting_world] reachable_busting_world b
  obtain k c s i b where k: "deck (gs busting_world) = k @ [c]"
    and c: "calculate_score (player_hand (gs busting_world) @ [c]) = Inr s"
    and h: "s > 15 / 2 \<longrightarrow> status_of (gs (snd (hit busting_world))) = Settled"
    by blast
  from k have "c = last (deck (gs busting_world))" by simp
  with c sb have "s = 8" by simp
  with h have settled: "status_of (gs (snd (hit busting_world))) = Settled" by simp
  from hit_in_progress [of started_world] reachable_started_world s
  obtain k c s i b where k: "deck (gs started_world) = k @ [c]"
    and c: "calculate_score (player_hand (gs started_world) @ [c]) = Inr s"
    and h: "s \<le> 15 / 2 \<longrightarrow> status_of (gs (snd (hit started_world))) = InProgress \<and>
           players (snd (hit started_world)) = players started_world"
    by blast
  from k have "c = last (deck (gs started_world))" by simp
  with c sc have "s = 15 / 2" by simp
  with h have "status_of (gs (snd (hit started_world))) = InProgress \<and>
           players (snd (hit started_world)) = players started_world"
    by simp
  with b s e sb sc settled reachable_busting_world reachable_started_world show ?thesis
    by blast
qed

text \<open>
  C4. The dealer's policy. With \<open>D\<close> the score of the dealer's hand and \<open>P\<close> the player's
  score, fixed before the loop: the loop stops with the hand and deck as they are when
  \<open>D \<ge> 7.5\<close>, or \<open>D > P\<close> and \<open>D \<ge> 6\<close>, or \<open>D = P\<close> and \<open>D \<ge> 6\<close>; otherwise it moves the top
  card of the deck to the dealer's hand and repeats (raising on an empty deck). So on a tie
  below 6 the dealer draws. When the loop ends normally the final hand satisfies a stopping
  condition, the cards drawn are the top cards of the deck in order, and no hand before
  the final one satisfied a stopping condition. The result is a function of \<open>P\<close>, the hand
  and the deck alone.
\<close>

theorem dealer_policy:
  "(calculate_score d = Inr D \<longrightarrow>
      dealer_loop P d k =
        (if dealer_stops P D then (None, d, k)
         else case pop k of
                Inl e \<Rightarrow> (Some e, d, k)
              | Inr (c, k') \<Rightarrow> dealer_loop P (d @ [c]) k')) \<and>
   (calculate_score d = Inr D \<and> D = P \<and> D < 6 \<longrightarrow>
      dealer_loop P d (k @ [c]) = dealer_loop P (d @ [c]) k) \<and>
   (dealer_loop P d k = (None, d', k') \<longrightarrow>
      (\<exists>D'. calculate_score d' = Inr D' \<and> dealer_stops P D') \<and>
      (\<exists>drawn. k = k' @ drawn \<and> d' = d @ rev drawn \<and>
         (\<forall>n < length drawn. \<exists>Dn.
            calculate_score (d @ take n (rev drawn)) = Inr Dn \<and> \<not> dealer_stops P Dn)))"
proof (intro conjI impI)
  assume "calculate_score d = Inr D"
  then show "dealer_loop P d k =
        (if dealer_stops P D then (None, d, k)
         else case pop k of
                Inl e \<Rightarrow> (Some e, d, k)
              | Inr (c, k') \<Rightarrow> dealer_loop P (d @ [c]) k')"
    by (rule dealer_loop_unfold)
next
  assume a: "calculate_score d = Inr D \<and> D = P \<and> D < 6"
  then have "\<not> dealer_stops P D" by (simp add: dealer_stops_def)
  with a show "dealer_loop P d (k @ [c]) = dealer_loop P (d @ [c]) k"
    by (simp add: dealer_loop_draw)
next
  assume l: "dealer_loop P d k = (None, d', k')"
  then show "\<exists>D'. calculate_score d' = Inr D' \<and> dealer_stops P D'"
    by (rule dealer_loop_final)
  from l show "\<exists>drawn. k = k' @ drawn \<and> d' = d @ rev drawn \<and>
         (\<forall>n < length drawn. \<exists>Dn.
            calculate_score (d @ take n (rev drawn)) = Inr Dn \<and> \<not> dealer_stops P Dn)"
    by (rule dealer_loop_trace)
qed

theorem dealer_policy_witness:
  "calculate_score [3] = Inr 3 \<and>
   (calculate_score [3] = Inr 3 \<and> (3::rat) = 3 \<and> (3::rat) < 6) \<and>
   dealer_loop 3 [3] ([5, 2] @ [4]) = dealer_loop 3 ([3] @ [4]) [5, 2] \<and>
   dealer_loop 3 [3] [5, 2, 4] = (None, [3, 4], [5, 2]) \<and>
   (\<exists>D'. calculate_score [3, 4] = Inr D' \<and> dealer_stops 3 D')"
proof -
  have s: "calculate_score [3] = Inr 3" by code_simp
  have l: "dealer_loop 3 [3] [5, 2, 4] = (None, [3, 4], [5, 2])" by code_simp
  note t = dealer_policy [of "[3]" 3 3 "[5, 2]" 4]
  from t s have "dealer_loop 3 [3] ([5, 2] @ [4]) = dealer_loop 3 ([3] @ [4]) [5, 2]" by simp
  moreover from dealer_policy [of "[3]" 3 3 "[5, 2, 4]" 4 "[3, 4]" "[5, 2]"] l
  have "\<exists>D'. calculate_score [3, 4] = Inr D' \<and> dealer_stops 3 D'" by blast
  ultimately show ?thesis using s l by simp
qed

text \<open>
  C5, as stated, fails. \<open>exited_world\<close> is the absent-round state that \<open>Exit\<close> leaves of a
  round in progress: \<open>hit\<close> still draws the 8 into the player's hand. \<open>settled_world\<close> is a
  settled round, won by the player for a balance of 120: \<open>stay\<close> settles it once more, for
  a balance of 140.
\<close>

theorem hit_stay_noop_counterexample:
  "status_of (gs exited_world) = NoActiveRound \<and>
   player_hand (gs exited_world) = [10] \<and>
   player_hand (gs (snd (hit exited_world))) = [10, 8] \<and>
   status_of (gs settled_world) = Settled \<and>
   players settled_world 1 = Some (Some (Finite 120)) \<and>
   players (snd (stay settled_world)) 1 = Some (Some (Finite 140))"
  by code_simp

text \<open>
  C5, amended. \<open>hit\<close> is a no-op, answered with the redirect, on every state whose
  \<open>game_over\<close> flag is set: on every settled round, and on an absent round left by \<open>Exit\<close>
  after its settlement. In the state in which no round was ever started, \<open>hit\<close> and \<open>stay\<close>
  raise IndexError on the empty deck and leave the state as it is. Neither \<open>hit\<close> nor
  \<open>stay\<close> reads the \<open>active\<close> flag: on an absent round left by \<open>Exit\<close> they act as on the
  same round before \<open>Exit\<close>.
\<close>

theorem hit_noop_when_game_over:
  "(game_over (gs w) \<longrightarrow> hit w = (Redirect, w)) \<and>
   (status_of (gs w) = Settled \<longrightarrow> hit w = (Redirect, w)) \<and>
   (gs w = initial_game_state \<longrightarrow>
      hit w = (ServerError IndexError, w) \<and> stay w = (ServerError IndexError, w)) \<and>
   hit (w\<lparr>gs := (gs w)\<lparr>active := a\<rparr>\<rparr>) =
     (fst (hit w), (snd (hit w))\<lparr>gs := (gs (snd (hit w)))\<lparr>active := a\<rparr>\<rparr>) \<and>
   stay (w\<lparr>gs := (gs w)\<lparr>active := a\<rparr>\<rparr>) =
     (fst (stay w), (snd (stay w))\<lparr>gs := (gs (snd (stay w)))\<lparr>active := a\<rparr>\<rparr>)"
proof (intro conjI impI)
  assume "game_over (gs w)"
  then show "hit w = (Redirect, w)" by (rule hit_settled)
next
  assume "status_of (gs w) = Settled"
  then have "game_over (gs w)" by (simp add: status_of_def split: if_splits)
  then show "hit w = (Redirect, w)" by (rule hit_settled)
next
  assume i: "gs w = initial_game_state"
  then show "hit w = (ServerError IndexError, w)" by (rule initial_hit)
  from i show "stay w = (ServerError IndexError, w)" by (rule initial_stay)
next
  show "hit (w\<lparr>gs := (gs w)\<lparr>active := a\<rparr>\<rparr>) =
     (fst (hit w), (snd (hit w))\<lparr>gs := (gs (snd (hit w)))\<lparr>active := a\<rparr>\<rparr>)"
    by (rule hit_ignores_active)
  show "stay (w\<lparr>gs := (gs w)\<lparr>active := a\<rparr>\<rparr>) =
     (fst (stay w), (snd (stay w))\<lparr>gs := (gs (snd (stay w)))\<lparr>active := a\<rparr>\<rparr>)"
    by (rule stay_ignores_active)
qed

theorem hit_noop_when_game_over_witness:
  "game_over (gs settled_world) \<and> status_of (gs settled_world) = Settled \<and>
   hit settled_world = (Redirect, settled_world) \<and>
   gs example_world = initial_game_state \<and>
   hit example_world = (ServerError IndexError, example_world) \<and>
   stay example_world = (ServerError IndexError, example_world)"
proof -
  have g: "game_over (gs settled_world)" "status_of (gs settled_world) = Settled" by code_simp+
  have i: "gs example_world = initial_game_state" by (simp add: example_world_def)
  from g i hit_noop_when_game_over [of settled_world] hit_noop_when_game_over [of example_world]
  show ?thesis by blast
qed

text \<open>
  C6. The score of a hand depends on the multiset of its cards only: two hands that are
  permutations of each other have the same score (and raise alike on an integer that is no
  card). The wildcards of a hand are resolved by applying one and the same rule once per
  wildcard, so no order of processing them is distinguished.
\<close>

theorem calculate_score_permutation:
  "mset hand = mset hand' \<Longrightarrow> calculate_score hand = calculate_score hand'"
proof -
  assume m: "mset hand = mset hand'"
  then have "set hand = set hand'" by (rule mset_eq_setD)
  moreover from m have "base hand = base hand'" by (simp add: base_mset)
  moreover from m have "count_list hand 10 = count_list hand' 10" by (metis count_mset)
  ultimately show ?thesis by (simp add: calculate_score_eq)
qed

theorem calculate_score_permutation_witness:
  "mset [10, 3, 8 :: int] = mset [8, 10, 3] \<and>
   calculate_score [10, 3, 8] = calculate_score [8, 10, 3]"
proof -
  have m: "mset [10, 3, 8 :: int] = mset [8, 10, 3]" by simp
  from m calculate_score_permutation [OF m] show ?thesis by blast
qed

text \<open>
  C7. The dealer's loop terminates: \<open>dealer_loop\<close> is a total function, defined by recursion
  on a deck that shrinks by one card per draw. Whatever it returns, the cards it drew are
  the top cards of the deck it started with, so it draws at most as many cards as the deck
  held, and it ends without exception, or with KeyError on an integer that is no card, or
  with IndexError on a deck drawn empty. In every state reachable from an accepted start
  it ends without exception, so \<open>stay\<close> never draws from an empty deck there; \<open>stay\<close> then
  returns whenever the bettor's balance is a float, as it is while the round is not over,
  and raises nothing but TypeError otherwise.
\<close>

theorem dealer_loop_draws_within_deck:
  "(dealer_loop P d k = (e, d', k') \<longrightarrow>
      (\<exists>drawn. k = k' @ drawn \<and> d' = d @ rev drawn) \<and>
      length d' - length d \<le> length k \<and>
      (e = None \<or> e = Some KeyError \<or> (e = Some IndexError \<and> k' = []))) \<and>
   (reachable w \<longrightarrow>
      (\<exists>P d' k'. calculate_score (player_hand (gs w)) = Inr P \<and>
         dealer_loop P (dealer_hand (gs w)) (deck (gs w)) = (None, d', k') \<and>
         length d' - length (dealer_hand (gs w)) \<le> length (deck (gs w))) \<and>
      (fst (stay w) = Redirect \<or> fst (stay w) = ServerError TypeError) \<and>
      (\<not> game_over (gs w) \<longrightarrow> fst (stay w) = Redirect) \<and>
      ((\<forall>i. current_player_id (gs w) = Some i \<longrightarrow> players w i \<noteq> Some None) \<longrightarrow>
         fst (stay w) = Redirect))"
proof (intro conjI impI)
  assume l: "dealer_loop P d k = (e, d', k')"
  from dealer_loop_cards [OF l] append_moved
  obtain drawn where dr: "k = k' @ drawn" "d' = d @ rev drawn" by blast
  then show "\<exists>drawn. k = k' @ drawn \<and> d' = d @ rev drawn" by blast
  from dr show "length d' - length d \<le> length k" by simp
  from l show "e = None \<or> e = Some KeyError \<or> (e = Some IndexError \<and> k' = [])"
    by (rule dealer_loop_errors)
next
  assume "reachable w"
  then have inv: "round_inv w" by (rule reachable_round_inv)
  from round_inv_stay_facts [OF inv] obtain P d' k' D i bo
    where P: "calculate_score (player_hand (gs w)) = Inr P"
      and l: "dealer_loop P (dealer_hand (gs w)) (deck (gs w)) = (None, d', k')"
      and D: "calculate_score d' = Inr D"
      and f: "find_player (players w) (current_player_id (gs w)) = Inr (Some (i, bo))"
      and nn: "\<not> game_over (gs w) \<longrightarrow> bo \<noteq> None"
    by blast
  from f have row: "current_player_id (gs w) = Some i" "players w i = Some bo"
    by (simp_all add: find_player_row)
  have ret: "fst (stay w) = Redirect" if "bo \<noteq> None"
  proof -
    from that f obtain b
      where "find_player (players w) (current_player_id (gs w)) = Inr (Some (i, Some b))"
      by auto
    from stay_settles [OF P l D this] show ?thesis by simp
  qed
  have null: "fst (stay w) = ServerError TypeError" if "bo = None"
  proof -
    from that f
    have "find_player (players w) (current_player_id (gs w)) = Inr (Some (i, None))" by simp
    from stay_null [OF P l D this] show ?thesis by simp
  qed
  from ret null show "fst (stay w) = Redirect \<or> fst (stay w) = ServerError TypeError"
    by blast
  from ret nn show "\<not> game_over (gs w) \<Longrightarrow> fst (stay w) = Redirect" by blast
  from ret row
  show "\<forall>i. current_player_id (gs w) = Some i \<longrightarrow> players w i \<noteq> Some None \<Longrightarrow>
      fst (stay w) = Redirect"
    by auto
  from dealer_loop_cards [OF l] append_moved
  obtain drawn where "deck (gs w) = k' @ drawn" "d' = dealer_hand (gs w) @ rev drawn" by blast
  then have "length d' - length (dealer_hand (gs w)) \<le> length (deck (gs w))" by simp
  with P l show "\<exists>P d' k'. calculate_score (player_hand (gs w)) = Inr P \<and>
         dealer_loop P (dealer_hand (gs w)) (deck (gs w)) = (None, d', k') \<and>
         length d' - length (dealer_hand (gs w)) \<le> length (deck (gs w))"
    by blast
qed

theorem dealer_loop_draws_within_deck_witness:
  "dealer_loop 3 [3] [5, 2, 4] = (None, [3, 4], [5, 2]) \<and>
   length [3, 4 :: int] - length [3 :: int] \<le> length [5, 2, 4 :: int] \<and>
   reachable started_world \<and>
   game_over (gs started_world) = False \<and>
   fst (stay started_world) = Redirect \<and>
   calculate_score (player_hand (gs started_world)) = Inr (1 / 2) \<and>
   dealer_loop (1 / 2) (dealer_hand (gs started_world)) (deck (gs started_world)) =
     (None, [9, 8, 7], butlast (butlast (deck (gs started_world))))"
proof -
  have l: "dealer_loop 3 [3] [5, 2, 4] = (None, [3, 4], [5, 2])" by code_simp
  have e: "calculate_score (player_hand (gs started_world)) = Inr (1 / 2)"
    "dealer_loop (1 / 2) (dealer_hand (gs started_world)) (deck (gs started_world)) =
     (None, [9, 8, 7], butlast (butlast (deck (gs started_world))))"
    "game_over (gs started_world) = False"
    by code_simp+
  from l dealer_loop_draws_within_deck [of 3 "[3]" "[5, 2, 4]" None "[3, 4]" "[5, 2]" started_world]
    reachable_started_world e
  show ?thesis by simp
qed

text \<open>
  C8, as stated, fails. The id \<open>2 ^ 63\<close> is the id of no player, but it is no signed 64-bit
  integer either: the lookup raises OverflowError, so the request is answered with a server
  error, not declined in silence (the state is unchanged). And for the bet NaN the
  precondition \<open>0 < bet\<close> fails, while both comparisons of the test are false: the request is
  accepted and a round is dealt.
\<close>

theorem start_game_declines_or_deals_counterexample:
  "players example_world (2 ^ 63) = None \<and>
   fst (start_game (2 ^ 63) (Finite 20) CARDS example_world) = ServerError OverflowError \<and>
   flt (Finite 0) NaN = False \<and>
   status_of (gs example_world) = NoActiveRound \<and>
   fst (start_game 1 NaN CARDS example_world) = Redirect \<and>
   status_of (gs (snd (start_game 1 NaN CARDS example_world))) = InProgress \<and>
   bet (gs (snd (start_game 1 NaN CARDS example_world))) = NaN"
  by code_simp

text \<open>
  C8, amended. \<open>start_game\<close> for a bettor id that is a signed 64-bit integer. If the bettor
  is not in the table, or is there with a float balance and the bet is at most 0 or exceeds
  the balance, the request is answered with the redirect and the state is unchanged. If
  the bettor is in the table with a float balance \<open>b\<close> and \<open>0 < bet \<le> b\<close> (equality
  included), then for the shuffled pack \<open>d\<close> the round slot holds the fresh round: the last
  card of \<open>d\<close> in the player's hand, the one before it in the dealer's, the other 38 in the
  deck, the round in progress with an empty message; the cards are conserved and no balance
  has changed. For a bettor id that is no signed 64-bit integer the lookup raises
  OverflowError: the request is answered with a server error and the state is unchanged.
\<close>

theorem start_game_declines_or_deals:
  "(int64 player_id \<and>
      (players w player_id = None \<or>
       (\<exists>balance. players w player_id = Some (Some balance) \<and>
          (fle bet_amount (Finite 0) \<or> flt balance bet_amount))) \<longrightarrow>
    start_game player_id bet_amount d w = (Redirect, w)) \<and>
   (int64 player_id \<and> players w player_id = Some (Some b) \<and>
      flt (Finite 0) bet_amount \<and> fle bet_amount b \<and> shuffled_deck d \<longrightarrow>
    (\<exists>k c2 c1. d = k @ [c2, c1] \<and> length k = 38 \<and>
       start_game player_id bet_amount d w =
         (Redirect,
          w\<lparr>gs := \<lparr>deck = k, player_hand = [c1], dealer_hand = [c2],
                   current_player_id = Some player_id, bet = bet_amount, game_over = False,
                   result_message = NoMessage, active = True\<rparr>\<rparr>)) \<and>
    conserved (gs (snd (start_game player_id bet_amount d w))) \<and>
    status_of (gs (snd (start_game player_id bet_amount d w))) = InProgress \<and>
    players (snd (start_game player_id bet_amount d w)) = players w) \<and>
   (\<not> int64 player_id \<longrightarrow>
    start_game player_id bet_amount d w = (ServerError OverflowError, w))"
proof (intro conjI impI)
  assume "int64 player_id \<and>
      (players w player_id = None \<or>
       (\<exists>balance. players w player_id = Some (Some balance) \<and>
          (fle bet_amount (Finite 0) \<or> flt balance bet_amount)))"
  then show "start_game player_id bet_amount d w = (Redirect, w)"
    by (intro start_game_declined) auto
next
  assume "\<not> int64 player_id"
  then show "start_game player_id bet_amount d w = (ServerError OverflowError, w)"
    by (rule start_game_overflow)
next
  assume a: "int64 player_id \<and> players w player_id = Some (Some b) \<and>
      flt (Finite 0) bet_amount \<and> fle bet_amount b \<and> shuffled_deck d"
  then have acc: "accepted player_id bet_amount w"
    using preconditions_pass [of bet_amount b] by (auto simp: accepted_row)
  from a obtain k c2 c1 where d: "d = k @ [c2, c1]" using shuffled_deck_split by blast
  from a have "size (mset d) = size (mset CARDS)" by (simp add: shuffled_deck_def)
  moreover have "length CARDS = 40" by code_simp
  ultimately have len: "length k = 38" using d by simp
  note s = start_game_accepted [OF acc, of k c2 c1]
  with d len show "\<exists>k c2 c1. d = k @ [c2, c1] \<and> length k = 38 \<and>
       start_game player_id bet_amount d w =
         (Redirect,
          w\<lparr>gs := \<lparr>deck = k, player_hand = [c1], dealer_hand = [c2],
                   current_player_id = Some player_id, bet = bet_amount, game_over = False,
                   result_message = NoMessage, active = True\<rparr>\<rparr>)"
    by blast
  from a d show "conserved (gs (snd (start_game player_id bet_amount d w)))"
    unfolding d s by (simp add: conserved_def shuffled_deck_def)
  show "status_of (gs (snd (start_game player_id bet_amount d w))) = InProgress"
    unfolding d s by (simp add: status_of_def)
  show "players (snd (start_game player_id bet_amount d w)) = players w"
    by (rule start_game_players)
qed

theorem start_game_declines_or_deals_witness:
  "int64 1 \<and> players example_world 1 = Some (Some (Finite 100)) \<and>
   fle (Finite 0) (Finite 0) \<and>
   start_game 1 (Finite 0) CARDS example_world = (Redirect, example_world) \<and>
   flt (Finite 100) (Finite 101) \<and>
   start_game 1 (Finite 101) CARDS example_world = (Redirect, example_world) \<and>
   int64 2 \<and> players example_world 2 = None \<and>
   start_game 2 (Finite 20) CARDS example_world = (Redirect, example_world) \<and>
   flt (Finite 0) (Finite 100) \<and> fle (Finite 100) (Finite 100) \<and> shuffled_deck CARDS \<and>
   status_of (gs (snd (start_game 1 (Finite 100) CARDS example_world))) = InProgress \<and>
   conserved (gs (snd (start_game 1 (Finite 100) CARDS example_world))) \<and>
   int64 (2 ^ 63) = False \<and>
   start_game (2 ^ 63) (Finite 20) CARDS example_world =
     (ServerError OverflowError, example_world)"
proof -
  have i: "int64 1" "int64 2" "int64 (2 ^ 63) = False" by (simp_all add: int64_def)
  have p: "players example_world 1 = Some (Some (Finite 100))" "players example_world 2 = None"
    by (simp_all add: example_world_def)
  have c: "fle (Finite 0) (Finite 0)" "flt (Finite 100) (Finite 101)"
    "flt (Finite 0) (Finite 100)" "fle (Finite 100) (Finite 100)"
    by simp_all
  from i p c start_game_declines_or_deals [of 1 example_world "Finite 0" CARDS]
  have t1: "start_game 1 (Finite 0) CARDS example_world = (Redirect, example_world)" by blast
  from i p c start_game_declines_or_deals [of 1 example_world "Finite 101" CARDS]
  have t2: "start_game 1 (Finite 101) CARDS example_world = (Redirect, example_world)" by blast
  from i p c start_game_declines_or_deals [of 2 example_world "Finite 20" CARDS]
  have t3: "start_game 2 (Finite 20) CARDS example_world = (Redirect, example_world)" by blast
  from i p c shuffled_deck_CARDS
    start_game_declines_or_deals [of 1 example_world "Finite 100" CARDS "Finite 100"]
  have t4: "status_of (gs (snd (start_game 1 (Finite 100) CARDS example_world))) = InProgress \<and>
     conserved (gs (snd (start_game 1 (Finite 100) CARDS example_world)))"
    by blast
  from i start_game_declines_or_deals [of "2 ^ 63" example_world "Finite 20" CARDS]
  have t5: "start_game (2 ^ 63) (Finite 20) CARDS example_world =
     (ServerError OverflowError, example_world)"
    by blast
  from i p c shuffled_deck_CARDS t1 t2 t3 t4 t5 show ?thesis by blast
qed

text \<open>
  C9. Card conservation. In every state reachable from an accepted start by any requests
  (\<open>Hit\<close>, \<open>Stay\<close>, \<open>Exit\<close>, further starts), deck and hands together are the multiset of the
  40 cards of the pack, and their lengths add up to 40. In every state whatsoever, \<open>hit\<close>
  only moves cards from the top of the deck to the player's hand and \<open>stay\<close> only to the
  dealer's hand, whether they return or raise.
\<close>

theorem cards_conserved:
  "(reachable w \<longrightarrow>
      mset (deck (gs w)) + mset (player_hand (gs w)) + mset (dealer_hand (gs w)) = mset CARDS \<and>
      length (deck (gs w)) + length (player_hand (gs w)) + length (dealer_hand (gs w)) = 40) \<and>
   (\<exists>moved. deck (gs w) = deck (gs (snd (hit w))) @ moved \<and>
      player_hand (gs (snd (hit w))) = player_hand (gs w) @ rev moved \<and>
      dealer_hand (gs (snd (hit w))) = dealer_hand (gs w)) \<and>
   (\<exists>moved. deck (gs w) = deck (gs (snd (stay w))) @ moved \<and>
      dealer_hand (gs (snd (stay w))) = dealer_hand (gs w) @ rev moved \<and>
      player_hand (gs (snd (stay w))) = player_hand (gs w))"
proof (intro conjI impI)
  assume "reachable w"
  then have c: "conserved (gs w)" using reachable_round_inv by (simp add: round_inv_def)
  then show "mset (deck (gs w)) + mset (player_hand (gs w)) + mset (dealer_hand (gs w)) =
      mset CARDS"
    by (simp add: conserved_def)
  from c show "length (deck (gs w)) + length (player_hand (gs w)) +
      length (dealer_hand (gs w)) = 40"
    by (rule conserved_length)
next
  show "\<exists>moved. deck (gs w) = deck (gs (snd (hit w))) @ moved \<and>
      player_hand (gs (snd (hit w))) = player_hand (gs w) @ rev moved \<and>
      dealer_hand (gs (snd (hit w))) = dealer_hand (gs w)"
    by (rule hit_moves)
  show "\<exists>moved. deck (gs w) = deck (gs (snd (stay w))) @ moved \<and>
      dealer_hand (gs (snd (stay w))) = dealer_hand (gs w) @ rev moved \<and>
      player_hand (gs (snd (stay w))) = player_hand (gs w)"
    by (rule stay_moves)
qed

theorem cards_conserved_witness:
  "reachable (run [Hit, Stay] started_world) \<and>
   length (deck (gs (run [Hit, Stay] started_world))) +
   length (player_hand (gs (run [Hit, Stay] started_world))) +
   length (dealer_hand (gs (run [Hit, Stay] started_world))) = 40"
proof -
  have "reachable (snd (handle Hit started_world))"
    using reachable.step [OF reachable_started_world, of Hit] by simp
  then have "reachable (snd (handle Stay (snd (handle Hit started_world))))"
    by (rule reachable.step) simp
  then have r: "reachable (run [Hit, Stay] started_world)" by simp
  with cards_conserved [of "run [Hit, Stay] started_world"] show ?thesis by blast
qed

text \<open>
  C10. \<open>start_game\<close> never changes a balance. A request whose preconditions hold (the bettor
  is in the table under a 64-bit id with a float balance \<open>b\<close>, and \<open>0 < bet \<le> b\<close>) passes the
  test of line 108, and a request that passes it is accepted whatever the round slot
  holds, a round in progress included: for the shuffled pack \<open>d\<close> the slot is overwritten by
  the fresh round, with the last card of \<open>d\<close> in the player's hand, the one before it in the
  dealer's, the other 38 in the deck, the new bettor and bet, the round in progress with an
  empty message; nothing of the previous slot remains and nothing is settled.
\<close>

theorem start_game_overwrites_round:
  "players (snd (start_game player_id bet_amount d w)) = players w \<and>
   (int64 player_id \<and> players w player_id = Some (Some b) \<and>
      flt (Finite 0) bet_amount \<and> fle bet_amount b \<longrightarrow>
    accepted player_id bet_amount w) \<and>
   (accepted player_id bet_amount w \<and> shuffled_deck d \<longrightarrow>
    (\<exists>k c2 c1. d = k @ [c2, c1] \<and> length k = 38 \<and>
       (\<forall>g. start_game player_id bet_amount d (w\<lparr>gs := g\<rparr>) =
          (Redirect,
           w\<lparr>gs := \<lparr>deck = k, player_hand = [c1], dealer_hand = [c2],
                    current_player_id = Some player_id, bet = bet_amount, game_over = False,
                    result_message = NoMessage, active = True\<rparr>\<rparr>))) \<and>
    fst (start_game player_id bet_amount d w) = Redirect \<and>
    (\<forall>g. start_game player_id bet_amount d (w\<lparr>gs := g\<rparr>) =
          start_game player_id bet_amount d w) \<and>
    status_of (gs (snd (start_game player_id bet_amount d w))) = InProgress \<and>
    current_player_id (gs (snd (start_game player_id bet_amount d w))) = Some player_id \<and>
    bet (gs (snd (start_game player_id bet_amount d w))) = bet_amount \<and>
    result_message (gs (snd (start_game player_id bet_amount d w))) = NoMessage)"
proof (intro conjI impI)
  show "players (snd (start_game player_id bet_amount d w)) = players w"
    by (rule start_game_players)
next
  assume "int64 player_id \<and> players w player_id = Some (Some b) \<and>
      flt (Finite 0) bet_amount \<and> fle bet_amount b"
  then show "accepted player_id bet_amount w"
    using preconditions_pass [of bet_amount b] by (auto simp: accepted_row)
next
  assume a: "accepted player_id bet_amount w \<and> shuffled_deck d"
  then obtain k c2 c1 where d: "d = k @ [c2, c1]" using shuffled_deck_split by blast
  from a have "size (mset d) = size (mset CARDS)" by (simp add: shuffled_deck_def)
  moreover have "length CARDS = 40" by code_simp
  ultimately have len: "length k = 38" using d by simp
  have every: "start_game player_id bet_amount d (w\<lparr>gs := g\<rparr>) =
          (Redirect,
           w\<lparr>gs := \<lparr>deck = k, player_hand = [c1], dealer_hand = [c2],
                    current_player_id = Some player_id, bet = bet_amount, game_over = False,
                    result_message = NoMessage, active = True\<rparr>\<rparr>)" for g
  proof -
    from a have "accepted player_id bet_amount (w\<lparr>gs := g\<rparr>)" by (simp add: accepted_def)
    from start_game_accepted [OF this, of k c2 c1] d show ?thesis by simp
  qed
  from every [of "gs w"] have s: "start_game player_id bet_amount d w =
          (Redirect,
           w\<lparr>gs := \<lparr>deck = k, player_hand = [c1], dealer_hand = [c2],
                    current_player_id = Some player_id, bet = bet_amount, game_over = False,
                    result_message = NoMessage, active = True\<rparr>\<rparr>)"
    by simp
  from d len every show "\<exists>k c2 c1. d = k @ [c2, c1] \<and> length k = 38 \<and>
       (\<forall>g. start_game player_id bet_amount d (w\<lparr>gs := g\<rparr>) =
          (Redirect,
           w\<lparr>gs := \<lparr>deck = k, player_hand = [c1], dealer_hand = [c2],
                    current_player_id = Some player_id, bet = bet_amount, game_over = False,
                    result_message = NoMessage, active = True\<rparr>\<rparr>))"
    by blast
  show "fst (start_game player_id bet_amount d w) = Redirect" unfolding s by simp
  show "\<forall>g. start_game player_id bet_amount d (w\<lparr>gs := g\<rparr>) =
          start_game player_id bet_amount d w"
    using every s by simp
  show "status_of (gs (snd (start_game player_id bet_amount d w))) = InProgress"
    unfolding s by (simp add: status_of_def)
  show "current_player_id (gs (snd (start_game player_id bet_amount d w))) = Some player_id"
    unfolding s by simp
  show "bet (gs (snd (start_game player_id bet_amount d w))) = bet_amount"
    unfolding s by simp
  show "result_message (gs (snd (start_game player_id bet_amount d w))) = NoMessage"
    unfolding s by simp
qed

theorem start_game_overwrites_round_witness:
  "status_of (gs started_world) = InProgress \<and>
   player_hand (gs started_world) = [10] \<and>
   int64 1 \<and> players started_world 1 = Some (Some (Finite 100)) \<and>
   flt (Finite 0) (Finite 30) \<and> fle (Finite 30) (Finite 100) \<and>
   accepted 1 (Finite 30) started_world \<and> shuffled_deck (rev CARDS) \<and>
   fst (start_game 1 (Finite 30) (rev CARDS) started_world) = Redirect \<and>
   bet (gs (snd (start_game 1 (Finite 30) (rev CARDS) started_world))) = Finite 30 \<and>
   player_hand (gs (snd (start_game 1 (Finite 30) (rev CARDS) started_world))) = [1] \<and>
   dealer_hand (gs (snd (start_game 1 (Finite 30) (rev CARDS) started_world))) = [2] \<and>
   length (deck (gs (snd (start_game 1 (Finite 30) (rev CARDS) started_world)))) = 38 \<and>
   players (snd (start_game 1 (Finite 30) (rev CARDS) started_world)) = players started_world"
proof -
  have p: "players started_world 1 = Some (Some (Finite 100))" by code_simp
  have i: "status_of (gs started_world) = InProgress" "player_hand (gs started_world) = [10]"
    by code_simp+
  have n: "int64 1" by (simp add: int64_def)
  have c: "flt (Finite 0) (Finite 30)" "fle (Finite 30) (Finite 100)" by simp_all
  note t = start_game_overwrites_round [of 1 "Finite 30" "rev CARDS" started_world "Finite 100"]
  from t n p c have acc: "accepted 1 (Finite 30) started_world" by blast
  have e: "player_hand (gs (snd (start_game 1 (Finite 30) (rev CARDS) started_world))) = [1]"
    "dealer_hand (gs (snd (start_game 1 (Finite 30) (rev CARDS) started_world))) = [2]"
    "length (deck (gs (snd (start_game 1 (Finite 30) (rev CARDS) started_world)))) = 38"
    by code_simp+
  from t acc shuffled_deck_rev_CARDS
  have "fst (start_game 1 (Finite 30) (rev CARDS) started_world) = Redirect \<and>
    bet (gs (snd (start_game 1 (Finite 30) (rev CARDS) started_world))) = Finite 30 \<and>
    players (snd (start_game 1 (Finite 30) (rev CARDS) started_world)) = players started_world"
    by blast
  with p i n c acc e shuffled_deck_rev_CARDS show ?thesis by blast
qed

end
